theory Spec2Isabelle
  imports Main "HOL-Library.Word"
begin

section \<open>The game capability and the engine state\<close>

text \<open>
  \<^verbatim>\<open>Minimax<GameState, Move, MaxMoves, MaxDepth>::GameLogic\<close> is an abstract class with
  five virtual operations. It is a record of five functions over the opaque types
  \<open>'s\<close> (GameState) and \<open>'m\<close> (Move):
  \<^item> \<open>generateMoves\<close> fills the caller's buffer and returns how many entries it wrote;
    the model returns the written prefix \<open>moves[0 .. count-1]\<close> as a list, so the count is
    the length of the list. The capacity \<open>maxMoves\<close> is passed through as in the source;
    the engine does not check the count against it. (A capability that writes more than
    \<open>maxMoves\<close> entries overruns the buffer; C++ leaves that undefined, and the model
    then describes a buffer that is large enough.)
  \<^item> \<open>applyMove\<close> mutates the state it is given by reference; the model returns the
    mutated state. (Section \<open>The copies in memory\<close> models the references themselves.)

  The operations are functions of their arguments: a capability answers the same question
  in the same way every time.

  Scores are C++ \<open>int\<close>. The engine only copies and compares them (\<open><\<close>, \<open>>\<close>, \<open><=\<close>,
  \<open>max\<close>, \<open>min\<close>) and never computes with them, so they are modelled as \<open>int\<close>: every
  machine score is such an integer, and the order is the same.
\<close>

record ('s, 'm) GameLogic =
  evaluate :: "'s \<Rightarrow> int"
  generateMoves :: "'s \<Rightarrow> int \<Rightarrow> 'm list"
  applyMove :: "'s \<Rightarrow> 'm \<Rightarrow> 's"
  isTerminal :: "'s \<Rightarrow> bool"
  isMaximizingPlayer :: "'s \<Rightarrow> bool"

text \<open>
  The two mutable members of the engine. \<open>_nodesSearched\<close> is a C++ \<open>int\<close> that is
  incremented once per search invocation: it is a machine word of the platform's
  \<open>int\<close> width \<open>'w\<close> (16 bits on the AVR boards the library is written for), and
  \<open>getNodesSearched\<close> reads it as a signed value. Incrementing the largest \<open>int\<close> is
  undefined in C++; in the model \<open>+ 1\<close> wraps, as it does on those boards, and what is
  proved about the number that \<open>getNodesSearched\<close> returns is proved for counts below
  \<open>2 ^ (w - 1)\<close> only.
\<close>

record (overloaded) 'w engine =
  bestScore :: int
  nodesSearched :: "'w word"

definition getBestScore :: "'w engine \<Rightarrow> int" where
  "getBestScore e = bestScore e"

definition getNodesSearched :: "'w::len engine \<Rightarrow> int" where
  "getNodesSearched e = sint (nodesSearched e)"

text \<open>
  The constructor initialises \<open>_nodesSearched\<close> to 0 and leaves \<open>_bestScore\<close>
  uninitialised: \<open>b\<close> is whatever the member happens to hold.
\<close>

definition Minimax :: "int \<Rightarrow> 'w::len engine" where
  "Minimax b = \<lparr>bestScore = b, nodesSearched = 0\<rparr>"

text \<open>
  What the engine does to the capability and to states is recorded as a list of events,
  in program order: each call of a capability operation with its arguments, each copy
  \<^verbatim>\<open>GameState newState = state\<close>, and each entry into the recursive \<^verbatim>\<open>minimax\<close> with its
  arguments. The events are observations only; no result depends on them.
\<close>

datatype ('s, 'm) event =
    Enter_minimax 's int int int bool
  | Call_isTerminal 's
  | Call_evaluate 's
  | Call_generateMoves 's
  | Call_isMaximizingPlayer 's
  | Copy_state 's
  | Call_applyMove 's 'm

section \<open>The recursive search\<close>

text \<open>
  \<^verbatim>\<open>int minimax(const GameState& state, int depth, int alpha, int beta, bool maximizingPlayer)\<close>

  \<open>depth\<close> is an \<open>int\<close> that is only tested with \<open>depth == 0\<close>, so a negative depth
  keeps recursing. The first argument of the model bounds the nesting of \<open>minimax\<close>
  frames: every recursive call takes one unit, and \<open>None\<close> means that the search would
  nest deeper than that. The two \<open>for\<close> loops are \<open>max_loop\<close> and \<open>min_loop\<close> over the
  moves not yet examined; \<open>break\<close> returns without looking at the rest of the list.
\<close>

function (sequential) minimax ::
    "nat \<Rightarrow> ('s, 'm) GameLogic \<Rightarrow> int \<Rightarrow> 'w::len engine \<Rightarrow> 's \<Rightarrow> int \<Rightarrow> int \<Rightarrow> int \<Rightarrow> bool
      \<Rightarrow> (int \<times> 'w engine \<times> ('s, 'm) event list) option"
  and max_loop ::
    "nat \<Rightarrow> ('s, 'm) GameLogic \<Rightarrow> int \<Rightarrow> 'w engine \<Rightarrow> 's \<Rightarrow> int \<Rightarrow> 'm list \<Rightarrow> int \<Rightarrow> int \<Rightarrow> int
      \<Rightarrow> (int \<times> 'w engine \<times> ('s, 'm) event list) option"
  and min_loop ::
    "nat \<Rightarrow> ('s, 'm) GameLogic \<Rightarrow> int \<Rightarrow> 'w engine \<Rightarrow> 's \<Rightarrow> int \<Rightarrow> 'm list \<Rightarrow> int \<Rightarrow> int \<Rightarrow> int
      \<Rightarrow> (int \<times> 'w engine \<times> ('s, 'm) event list) option"
where
  "minimax 0 L MaxMoves e state depth alpha beta maximizingPlayer = None"
| "minimax (Suc fuel) L MaxMoves e state depth alpha beta maximizingPlayer =
     (let e1 = e\<lparr>nodesSearched := nodesSearched e + 1\<rparr>;
          enter = Enter_minimax state depth alpha beta maximizingPlayer
      in if depth = 0 then
           Some (evaluate L state, e1, [enter, Call_evaluate state])
         else if isTerminal L state then
           Some (evaluate L state, e1, [enter, Call_isTerminal state, Call_evaluate state])
         else
           let moves = generateMoves L state MaxMoves;
               pre = [enter, Call_isTerminal state, Call_generateMoves state]
           in if maximizingPlayer then
                (case max_loop fuel L MaxMoves e1 state depth moves (- 32000) alpha beta of
                   None \<Rightarrow> None
                 | Some (maxEval, e2, tr) \<Rightarrow> Some (maxEval, e2, pre @ tr))
              else
                (case min_loop fuel L MaxMoves e1 state depth moves 32000 alpha beta of
                   None \<Rightarrow> None
                 | Some (minEval, e2, tr) \<Rightarrow> Some (minEval, e2, pre @ tr)))"
| "max_loop fuel L MaxMoves e state depth [] maxEval alpha beta = Some (maxEval, e, [])"
| "max_loop fuel L MaxMoves e state depth (m # ms) maxEval alpha beta =
     (let newState = applyMove L state m;
          step = [Copy_state state, Call_applyMove state m]
      in case minimax fuel L MaxMoves e newState (depth - 1) alpha beta False of
           None \<Rightarrow> None
         | Some (eval, e1, tr) \<Rightarrow>
             let maxEval1 = max maxEval eval;
                 alpha1 = max alpha eval
             in if beta \<le> alpha1 then Some (maxEval1, e1, step @ tr)
                else (case max_loop fuel L MaxMoves e1 state depth ms maxEval1 alpha1 beta of
                        None \<Rightarrow> None
                      | Some (r, e2, tr2) \<Rightarrow> Some (r, e2, step @ tr @ tr2)))"
| "min_loop fuel L MaxMoves e state depth [] minEval alpha beta = Some (minEval, e, [])"
| "min_loop fuel L MaxMoves e state depth (m # ms) minEval alpha beta =
     (let newState = applyMove L state m;
          step = [Copy_state state, Call_applyMove state m]
      in case minimax fuel L MaxMoves e newState (depth - 1) alpha beta True of
           None \<Rightarrow> None
         | Some (eval, e1, tr) \<Rightarrow>
             let minEval1 = min minEval eval;
                 beta1 = min beta eval
             in if beta1 \<le> alpha then Some (minEval1, e1, step @ tr)
                else (case min_loop fuel L MaxMoves e1 state depth ms minEval1 alpha beta1 of
                        None \<Rightarrow> None
                      | Some (r, e2, tr2) \<Rightarrow> Some (r, e2, step @ tr @ tr2)))"
  by pat_completeness auto

text \<open>
  The model terminates: a call of \<open>minimax\<close> from a loop keeps the nesting bound and
  enters \<open>minimax\<close>, which lowers it before it enters a loop; a loop iteration
  shortens the list.
\<close>

termination
  by (relation "inv_image (less_than <*lex*> less_than)
        (\<lambda>x. case x of
            Inl (fuel, L, MaxMoves, e, state, depth, alpha, beta, mp) \<Rightarrow> (fuel, 0)
          | Inr (Inl (fuel, L, MaxMoves, e, state, depth, ms, r)) \<Rightarrow> (fuel, Suc (length ms))
          | Inr (Inr (fuel, L, MaxMoves, e, state, depth, ms, r)) \<Rightarrow> (fuel, Suc (length ms)))")
    auto

section \<open>The root call\<close>

text \<open>
  \<^verbatim>\<open>Move findBestMove(const GameState& state)\<close>. \<open>default_Move\<close> is the value of the
  default-constructed \<^verbatim>\<open>Move bestMove;\<close>. \<open>root_loop\<close> is the \<open>for\<close> loop over the root
  moves, carrying \<open>bestMove\<close> and the engine (\<open>_bestScore\<close>, \<open>_nodesSearched\<close>).
\<close>

fun root_loop ::
    "nat \<Rightarrow> ('s, 'm) GameLogic \<Rightarrow> int \<Rightarrow> int \<Rightarrow> bool \<Rightarrow> 's \<Rightarrow> 'm list \<Rightarrow> 'm \<Rightarrow> 'w::len engine
      \<Rightarrow> ('m \<times> 'w engine \<times> ('s, 'm) event list) option"
where
  "root_loop fuel L MaxMoves MaxDepth isMax state [] bestMove e = Some (bestMove, e, [])"
| "root_loop fuel L MaxMoves MaxDepth isMax state (m # ms) bestMove e =
     (let newState = applyMove L state m;
          step = [Copy_state state, Call_applyMove state m]
      in case minimax fuel L MaxMoves e newState (MaxDepth - 1) (- 32000) 32000 (\<not> isMax) of
           None \<Rightarrow> None
         | Some (score, e1, tr) \<Rightarrow>
             let improves = (if isMax then score > bestScore e1 else score < bestScore e1);
                 e2 = (if improves then e1\<lparr>bestScore := score\<rparr> else e1);
                 bestMove1 = (if improves then m else bestMove)
             in (case root_loop fuel L MaxMoves MaxDepth isMax state ms bestMove1 e2 of
                   None \<Rightarrow> None
                 | Some (r, e3, tr2) \<Rightarrow> Some (r, e3, step @ tr @ tr2)))"

definition findBestMove ::
    "nat \<Rightarrow> ('s, 'm) GameLogic \<Rightarrow> int \<Rightarrow> int \<Rightarrow> 'm \<Rightarrow> 'w::len engine \<Rightarrow> 's
      \<Rightarrow> ('m \<times> 'w engine \<times> ('s, 'm) event list) option"
where
  "findBestMove fuel L MaxMoves MaxDepth default_Move e state =
     (let bestMove = default_Move;
          moves = generateMoves L state MaxMoves
      in if length moves = 0 then Some (bestMove, e, [Call_generateMoves state])
         else
           let isMax = isMaximizingPlayer L state;
               e1 = e\<lparr>bestScore := (if isMax then - 32000 else 32000), nodesSearched := 0\<rparr>
           in (case root_loop fuel L MaxMoves MaxDepth isMax state moves bestMove e1 of
                 None \<Rightarrow> None
               | Some (r, e2, tr) \<Rightarrow>
                   Some (r, e2, [Call_generateMoves state, Call_isMaximizingPlayer state] @ tr)))"

section \<open>Reading the event record\<close>

text \<open>
  \<open>invocations\<close> counts the entries into the recursive \<^verbatim>\<open>minimax\<close> in an event record.
  \<open>enter_depth_ok bound\<close> holds of an entry whose \<open>depth\<close> argument lies in
  \<open>0 .. bound\<close>, and of every other event.
\<close>

fun is_Enter :: "('s, 'm) event \<Rightarrow> bool" where
  "is_Enter (Enter_minimax s d a b mp) = True"
| "is_Enter _ = False"

definition invocations :: "('s, 'm) event list \<Rightarrow> nat" where
  "invocations tr = length (filter is_Enter tr)"

fun enter_depth_ok :: "int \<Rightarrow> ('s, 'm) event \<Rightarrow> bool" where
  "enter_depth_ok bound (Enter_minimax s d a b mp) = (0 \<le> d \<and> d \<le> bound)"
| "enter_depth_ok bound _ = True"

text \<open>
  The score and the events of a search do not depend on the engine it runs in (lemma
  \<open>minimax_search\<close> below): \<open>search\<close> names them, computed in an engine of its own.
  \<open>root_child_score\<close> is the score that the root call obtains for one root move.
\<close>

definition search ::
    "nat \<Rightarrow> ('s, 'm) GameLogic \<Rightarrow> int \<Rightarrow> 's \<Rightarrow> int \<Rightarrow> int \<Rightarrow> int \<Rightarrow> bool
      \<Rightarrow> (int \<times> ('s, 'm) event list) option"
where
  "search fuel L MaxMoves state depth alpha beta maximizingPlayer =
     map_option (\<lambda>(v, e, tr). (v, tr))
       (minimax fuel L MaxMoves (Minimax 0 :: 1 engine) state depth alpha beta maximizingPlayer)"

definition root_child_score ::
    "nat \<Rightarrow> ('s, 'm) GameLogic \<Rightarrow> int \<Rightarrow> int \<Rightarrow> 's \<Rightarrow> 'm \<Rightarrow> int option"
where
  "root_child_score fuel L MaxMoves MaxDepth state m =
     map_option fst
       (search fuel L MaxMoves (applyMove L state m) (MaxDepth - 1) (- 32000) 32000
          (\<not> isMaximizingPlayer L state))"

section \<open>Choosing among scored moves\<close>

text \<open>
  The root keeps the first move whose score is strictly better than every score before it:
  \<open>select_best\<close> scans the moves with their scores in generation order, starting from a
  placeholder move and an initial best score, and replaces the pair only on \<open>>\<close> (when
  maximizing) or \<open><\<close> (when minimizing).
\<close>

fun select_best :: "bool \<Rightarrow> ('m \<times> int) list \<Rightarrow> 'm \<Rightarrow> int \<Rightarrow> 'm \<times> int" where
  "select_best isMax [] bestMove best = (bestMove, best)"
| "select_best isMax ((m, score) # rest) bestMove best =
     (if (if isMax then score > best else score < best)
      then select_best isMax rest m score
      else select_best isMax rest bestMove best)"

section \<open>Exhaustive minimax, the reference for pruning\<close>

text \<open>
  The specification compares the pruned search with exhaustive minimax without pruning.
  That reference is written here from the specification's words, not from the source:
  depth-bounded minimax without a window and without a cutoff. At depth 0 or at a terminal
  state the value is \<open>evaluate state\<close>; otherwise every generated move is applied and
  searched one level lower with the other player to move, and the value is the maximum
  (maximizing player) or minimum (minimizing player) of the children's values, starting
  from \<open>- 32000\<close> or \<open>32000\<close>. It nests under the same bound as \<open>minimax\<close>.
\<close>

function (sequential) exhaustive ::
    "nat \<Rightarrow> ('s, 'm) GameLogic \<Rightarrow> int \<Rightarrow> 's \<Rightarrow> int \<Rightarrow> bool \<Rightarrow> int option"
  and exhaustive_max ::
    "nat \<Rightarrow> ('s, 'm) GameLogic \<Rightarrow> int \<Rightarrow> 's \<Rightarrow> int \<Rightarrow> 'm list \<Rightarrow> int \<Rightarrow> int option"
  and exhaustive_min ::
    "nat \<Rightarrow> ('s, 'm) GameLogic \<Rightarrow> int \<Rightarrow> 's \<Rightarrow> int \<Rightarrow> 'm list \<Rightarrow> int \<Rightarrow> int option"
where
  "exhaustive 0 L MaxMoves state depth maximizing = None"
| "exhaustive (Suc fuel) L MaxMoves state depth maximizing =
     (if depth = 0 \<or> isTerminal L state then Some (evaluate L state)
      else if maximizing then
        exhaustive_max fuel L MaxMoves state depth (generateMoves L state MaxMoves) (- 32000)
      else
        exhaustive_min fuel L MaxMoves state depth (generateMoves L state MaxMoves) 32000)"
| "exhaustive_max fuel L MaxMoves state depth [] best = Some best"
| "exhaustive_max fuel L MaxMoves state depth (m # ms) best =
     (case exhaustive fuel L MaxMoves (applyMove L state m) (depth - 1) False of
        None \<Rightarrow> None
      | Some v \<Rightarrow> exhaustive_max fuel L MaxMoves state depth ms (max best v))"
| "exhaustive_min fuel L MaxMoves state depth [] best = Some best"
| "exhaustive_min fuel L MaxMoves state depth (m # ms) best =
     (case exhaustive fuel L MaxMoves (applyMove L state m) (depth - 1) True of
        None \<Rightarrow> None
      | Some v \<Rightarrow> exhaustive_min fuel L MaxMoves state depth ms (min best v))"
  by pat_completeness auto

text \<open>
  The same measure as for \<open>minimax\<close>.
\<close>

termination
  by (relation "inv_image (less_than <*lex*> less_than)
        (\<lambda>x. case x of
            Inl (fuel, L, MaxMoves, state, depth, maximizing) \<Rightarrow> (fuel, 0)
          | Inr (Inl (fuel, L, MaxMoves, state, depth, ms, best)) \<Rightarrow> (fuel, Suc (length ms))
          | Inr (Inr (fuel, L, MaxMoves, state, depth, ms, best)) \<Rightarrow> (fuel, Suc (length ms)))")
    auto

text \<open>
  The exhaustive root call scores every root move by exhaustive minimax at depth
  \<open>MaxDepth - 1\<close> and selects as the root does: strictly better than the initial sentinel,
  earliest first. Without a root move it returns the default-constructed move and no
  score.
\<close>

definition exhaustive_findBestMove ::
    "nat \<Rightarrow> ('s, 'm) GameLogic \<Rightarrow> int \<Rightarrow> int \<Rightarrow> 'm \<Rightarrow> 's \<Rightarrow> ('m \<times> int option) option"
where
  "exhaustive_findBestMove fuel L MaxMoves MaxDepth default_Move state =
     (let moves = generateMoves L state MaxMoves;
          isMax = isMaximizingPlayer L state
      in if moves = [] then Some (default_Move, None)
         else
           (case those (map (\<lambda>m. exhaustive fuel L MaxMoves (applyMove L state m) (MaxDepth - 1)
                                 (\<not> isMax)) moves) of
              None \<Rightarrow> None
            | Some scores \<Rightarrow>
                (case select_best isMax (zip moves scores) default_Move
                        (if isMax then - 32000 else 32000) of
                   (bestMove, best) \<Rightarrow> Some (bestMove, Some best))))"

text \<open>
  How a pruned score \<open>r\<close> relates to the exhaustive value \<open>v\<close> for a window
  \<open>(alpha, beta)\<close>: a score above \<open>alpha\<close> is a lower bound of the value, a score below
  \<open>beta\<close> an upper bound; a score inside the window is the value. \<open>same_at_root\<close> is
  what remains of that under the full window for a child of the root: for a maximizing
  root a score above \<open>- 32000\<close> is exact and any other score means a value no better
  than \<open>- 32000\<close>, and symmetrically for a minimizing root.
\<close>

definition fail_soft :: "int \<Rightarrow> int \<Rightarrow> int \<Rightarrow> int \<Rightarrow> bool" where
  "fail_soft alpha beta v r \<longleftrightarrow> (alpha < r \<longrightarrow> r \<le> v) \<and> (r < beta \<longrightarrow> v \<le> r)"

definition same_at_root :: "bool \<Rightarrow> int \<Rightarrow> int \<Rightarrow> bool" where
  "same_at_root isMax r v \<longleftrightarrow>
     (if isMax then (- 32000 < r \<longrightarrow> v = r) \<and> (r \<le> - 32000 \<longrightarrow> v \<le> - 32000)
      else (r < 32000 \<longrightarrow> v = r) \<and> (32000 \<le> r \<longrightarrow> 32000 \<le> v))"

section \<open>The copies in memory\<close>

text \<open>
  In the source a \<^verbatim>\<open>GameState\<close> is passed by reference, \<^verbatim>\<open>GameState newState = state\<close>
  makes a new local object, and \<^verbatim>\<open>applyMove\<close> mutates the object it is given. To state what
  happens to the caller's object, the same code is modelled once more over a memory of
  game states: \<open>mem\<close> maps addresses to states, a reference is an address, and \<open>sp\<close>
  is the first free slot of the stack, so every object that exists when a function is
  entered lies below \<open>sp\<close>. The local \<open>newState\<close> of a frame lives at \<open>sp\<close>, and the
  frames of the calls it makes start at \<open>Suc sp\<close>. Instead of the event record the
  functions return the memory accesses that write: \<open>Copy_into dst src\<close> for the copy
  construction and \<open>ApplyMove_at a m\<close> for \<^verbatim>\<open>applyMove\<close> on the object at \<open>a\<close>.
\<close>

datatype 'm access = Copy_into nat nat | ApplyMove_at nat 'm

function (sequential) minimax_at ::
    "nat \<Rightarrow> ('s, 'm) GameLogic \<Rightarrow> int \<Rightarrow> 'w::len engine \<Rightarrow> (nat \<Rightarrow> 's) \<Rightarrow> nat \<Rightarrow> nat \<Rightarrow> int \<Rightarrow> int
      \<Rightarrow> int \<Rightarrow> bool \<Rightarrow> (int \<times> 'w engine \<times> (nat \<Rightarrow> 's) \<times> 'm access list) option"
  and max_loop_at ::
    "nat \<Rightarrow> ('s, 'm) GameLogic \<Rightarrow> int \<Rightarrow> 'w engine \<Rightarrow> (nat \<Rightarrow> 's) \<Rightarrow> nat \<Rightarrow> nat \<Rightarrow> int \<Rightarrow> 'm list
      \<Rightarrow> int \<Rightarrow> int \<Rightarrow> int \<Rightarrow> (int \<times> 'w engine \<times> (nat \<Rightarrow> 's) \<times> 'm access list) option"
  and min_loop_at ::
    "nat \<Rightarrow> ('s, 'm) GameLogic \<Rightarrow> int \<Rightarrow> 'w engine \<Rightarrow> (nat \<Rightarrow> 's) \<Rightarrow> nat \<Rightarrow> nat \<Rightarrow> int \<Rightarrow> 'm list
      \<Rightarrow> int \<Rightarrow> int \<Rightarrow> int \<Rightarrow> (int \<times> 'w engine \<times> (nat \<Rightarrow> 's) \<times> 'm access list) option"
where
  "minimax_at 0 L MaxMoves e mem sp state depth alpha beta maximizingPlayer = None"
| "minimax_at (Suc fuel) L MaxMoves e mem sp state depth alpha beta maximizingPlayer =
     (let e1 = e\<lparr>nodesSearched := nodesSearched e + 1\<rparr>
      in if depth = 0 \<or> isTerminal L (mem state) then Some (evaluate L (mem state), e1, mem, [])
         else
           let moves = generateMoves L (mem state) MaxMoves
           in if maximizingPlayer then
                max_loop_at fuel L MaxMoves e1 mem sp state depth moves (- 32000) alpha beta
              else
                min_loop_at fuel L MaxMoves e1 mem sp state depth moves 32000 alpha beta)"
| "max_loop_at fuel L MaxMoves e mem sp state depth [] maxEval alpha beta =
     Some (maxEval, e, mem, [])"
| "max_loop_at fuel L MaxMoves e mem sp state depth (m # ms) maxEval alpha beta =
     (let newState = sp;
          mem1 = mem(newState := mem state);
          mem2 = mem1(newState := applyMove L (mem1 newState) m);
          step = [Copy_into newState state, ApplyMove_at newState m]
      in case minimax_at fuel L MaxMoves e mem2 (Suc sp) newState (depth - 1) alpha beta False of
           None \<Rightarrow> None
         | Some (eval, e1, mem3, acc) \<Rightarrow>
             let maxEval1 = max maxEval eval;
                 alpha1 = max alpha eval
             in if beta \<le> alpha1 then Some (maxEval1, e1, mem3, step @ acc)
                else (case max_loop_at fuel L MaxMoves e1 mem3 sp state depth ms maxEval1 alpha1 beta of
                        None \<Rightarrow> None
                      | Some (r, e2, mem4, acc2) \<Rightarrow> Some (r, e2, mem4, step @ acc @ acc2)))"
| "min_loop_at fuel L MaxMoves e mem sp state depth [] minEval alpha beta =
     Some (minEval, e, mem, [])"
| "min_loop_at fuel L MaxMoves e mem sp state depth (m # ms) minEval alpha beta =
     (let newState = sp;
          mem1 = mem(newState := mem state);
          mem2 = mem1(newState := applyMove L (mem1 newState) m);
          step = [Copy_into newState state, ApplyMove_at newState m]
      in case minimax_at fuel L MaxMoves e mem2 (Suc sp) newState (depth - 1) alpha beta True of
           None \<Rightarrow> None
         | Some (eval, e1, mem3, acc) \<Rightarrow>
             let minEval1 = min minEval eval;
                 beta1 = min beta eval
             in if beta1 \<le> alpha then Some (minEval1, e1, mem3, step @ acc)
                else (case min_loop_at fuel L MaxMoves e1 mem3 sp state depth ms minEval1 alpha beta1 of
                        None \<Rightarrow> None
                      | Some (r, e2, mem4, acc2) \<Rightarrow> Some (r, e2, mem4, step @ acc @ acc2)))"
  by pat_completeness auto

termination
  by (relation "inv_image (less_than <*lex*> less_than)
        (\<lambda>x. case x of
            Inl (fuel, L, MaxMoves, e, mem, sp, state, depth, alpha, beta, mp) \<Rightarrow> (fuel, 0)
          | Inr (Inl (fuel, L, MaxMoves, e, mem, sp, state, depth, ms, r)) \<Rightarrow> (fuel, Suc (length ms))
          | Inr (Inr (fuel, L, MaxMoves, e, mem, sp, state, depth, ms, r)) \<Rightarrow> (fuel, Suc (length ms)))")
    auto

fun root_loop_at ::
    "nat \<Rightarrow> ('s, 'm) GameLogic \<Rightarrow> int \<Rightarrow> int \<Rightarrow> bool \<Rightarrow> (nat \<Rightarrow> 's) \<Rightarrow> nat \<Rightarrow> nat \<Rightarrow> 'm list \<Rightarrow> 'm
      \<Rightarrow> 'w::len engine \<Rightarrow> ('m \<times> 'w engine \<times> (nat \<Rightarrow> 's) \<times> 'm access list) option"
where
  "root_loop_at fuel L MaxMoves MaxDepth isMax mem sp state [] bestMove e = Some (bestMove, e, mem, [])"
| "root_loop_at fuel L MaxMoves MaxDepth isMax mem sp state (m # ms) bestMove e =
     (let newState = sp;
          mem1 = mem(newState := mem state);
          mem2 = mem1(newState := applyMove L (mem1 newState) m);
          step = [Copy_into newState state, ApplyMove_at newState m]
      in case minimax_at fuel L MaxMoves e mem2 (Suc sp) newState (MaxDepth - 1) (- 32000) 32000
                (\<not> isMax) of
           None \<Rightarrow> None
         | Some (score, e1, mem3, acc) \<Rightarrow>
             let improves = (if isMax then score > bestScore e1 else score < bestScore e1);
                 e2 = (if improves then e1\<lparr>bestScore := score\<rparr> else e1);
                 bestMove1 = (if improves then m else bestMove)
             in (case root_loop_at fuel L MaxMoves MaxDepth isMax mem3 sp state ms bestMove1 e2 of
                   None \<Rightarrow> None
                 | Some (r, e3, mem4, acc2) \<Rightarrow> Some (r, e3, mem4, step @ acc @ acc2)))"

definition findBestMove_at ::
    "nat \<Rightarrow> ('s, 'm) GameLogic \<Rightarrow> int \<Rightarrow> int \<Rightarrow> 'm \<Rightarrow> 'w::len engine \<Rightarrow> (nat \<Rightarrow> 's) \<Rightarrow> nat \<Rightarrow> nat
      \<Rightarrow> ('m \<times> 'w engine \<times> (nat \<Rightarrow> 's) \<times> 'm access list) option"
where
  "findBestMove_at fuel L MaxMoves MaxDepth default_Move e mem sp state =
     (let bestMove = default_Move;
          moves = generateMoves L (mem state) MaxMoves
      in if length moves = 0 then Some (bestMove, e, mem, [])
         else
           let isMax = isMaximizingPlayer L (mem state);
               e1 = e\<lparr>bestScore := (if isMax then - 32000 else 32000), nodesSearched := 0\<rparr>
           in root_loop_at fuel L MaxMoves MaxDepth isMax mem sp state moves bestMove e1)"

text \<open>
  \<open>private_copies sp acc\<close>: the writes in \<open>acc\<close> come in pairs, a copy construction
  immediately followed by \<^verbatim>\<open>applyMove\<close> on the object just constructed, and that object
  lies at or above \<open>sp\<close>.
\<close>

fun private_copies :: "nat \<Rightarrow> 'm access list \<Rightarrow> bool" where
  "private_copies sp [] = True"
| "private_copies sp (Copy_into dst src # ApplyMove_at a m # rest) =
     (dst = a \<and> sp \<le> a \<and> private_copies sp rest)"
| "private_copies sp _ = False"

section \<open>Two concrete games\<close>

text \<open>
  One-heap Nim: a state is the number of sticks left and whether the maximizing player
  is to move; a move takes one or two sticks; whoever takes the last stick wins. An empty
  heap is terminal and scores 10 for the winner's side; any other position scores 0.
\<close>

definition nim :: "(nat \<times> bool, nat) GameLogic" where
  "nim = \<lparr>
     evaluate = (\<lambda>(n, maxToMove). if n = 0 then (if maxToMove then - 10 else 10) else 0),
     generateMoves = (\<lambda>(n, maxToMove) maxMoves. if 2 \<le> n then [1, 2] else if n = 1 then [1] else []),
     applyMove = (\<lambda>(n, maxToMove) k. (n - k, \<not> maxToMove)),
     isTerminal = (\<lambda>(n, maxToMove). n = 0),
     isMaximizingPlayer = (\<lambda>(n, maxToMove). maxToMove)\<rparr>"

text \<open>
  A game played on an explicit finite tree: a position is a subtree together with the
  side to move, a move names the subtree to descend into, a leaf is terminal and carries
  its score. \<open>Node []\<close> is a position that is not terminal and has no move.
\<close>

datatype tree = Leaf int | Node "tree list"

definition tree_game :: "(tree \<times> bool, tree) GameLogic" where
  "tree_game = \<lparr>
     evaluate = (\<lambda>(t, maxToMove). case t of Leaf v \<Rightarrow> v | Node ts \<Rightarrow> 0),
     generateMoves = (\<lambda>(t, maxToMove) maxMoves. case t of Leaf v \<Rightarrow> [] | Node ts \<Rightarrow> ts),
     applyMove = (\<lambda>(t, maxToMove) m. (m, \<not> maxToMove)),
     isTerminal = (\<lambda>(t, maxToMove). case t of Leaf v \<Rightarrow> True | Node ts \<Rightarrow> False),
     isMaximizingPlayer = (\<lambda>(t, maxToMove). maxToMove)\<rparr>"

section \<open>Properties of the recursive search\<close>

text \<open>
  The proofs about \<open>minimax\<close> and its two loops go by the induction rule of their
  definition: one case for an exhausted nesting bound, one for the body of \<open>minimax\<close>,
  and for each loop one for the end of the move list and one for an iteration.
\<close>

lemma invocations_simps [simp]:
  "invocations [] = 0"
  "invocations (ev # tr) = (if is_Enter ev then Suc (invocations tr) else invocations tr)"
  "invocations (tr @ tr') = invocations tr + invocations tr'"
  by (simp_all add: invocations_def)

text \<open>
  A search changes nothing in the engine but the node counter, which it advances by one
  for every entry into \<open>minimax\<close>.
\<close>

lemma minimax_counter:
  fixes e :: "'w::len engine"
  shows "minimax fuel L MaxMoves e state depth alpha beta mp = Some (v, e', tr) \<Longrightarrow>
           e' = e\<lparr>nodesSearched := nodesSearched e + of_nat (invocations tr)\<rparr>"
    and "max_loop fuel L MaxMoves e state depth ms maxEval alpha beta = Some (v, e', tr) \<Longrightarrow>
           e' = e\<lparr>nodesSearched := nodesSearched e + of_nat (invocations tr)\<rparr>"
    and "min_loop fuel L MaxMoves e state depth ms minEval alpha beta = Some (v, e', tr) \<Longrightarrow>
           e' = e\<lparr>nodesSearched := nodesSearched e + of_nat (invocations tr)\<rparr>"
proof (induction fuel L MaxMoves e state depth alpha beta mp
    and fuel L MaxMoves e state depth ms maxEval alpha beta
    and fuel L MaxMoves e state depth ms minEval alpha beta
    arbitrary: v e' tr and v e' tr and v e' tr
    rule: minimax_max_loop_min_loop.induct)
  case (1 L MaxMoves e state depth alpha beta maximizingPlayer)
  then show ?case by simp
next
  case (2 fuel L MaxMoves e state depth alpha beta maximizingPlayer)
  show ?case
    using "2.prems" "2.IH"
    by (auto simp: Let_def split: if_splits option.splits)
next
  case (3 fuel L MaxMoves e state depth maxEval alpha beta)
  then show ?case by simp
next
  case (4 fuel L MaxMoves e state depth m ms maxEval alpha beta)
  show ?case
    using "4.prems" "4.IH"
    by (auto simp: Let_def add.assoc split: if_splits option.splits)
next
  case (5 fuel L MaxMoves e state depth minEval alpha beta)
  then show ?case by simp
next
  case (6 fuel L MaxMoves e state depth m ms minEval alpha beta)
  show ?case
    using "6.prems" "6.IH"
    by (auto simp: Let_def add.assoc split: if_splits option.splits)
qed

text \<open>
  The score and the event record are the same in every engine, whatever its counter
  holds and however wide the counter is.
\<close>

lemma minimax_engine:
  fixes e :: "'w::len engine" and e2 :: "'v::len engine"
  shows "minimax fuel L MaxMoves e state depth alpha beta mp = Some (v, e', tr) \<Longrightarrow>
           \<exists>e2'. minimax fuel L MaxMoves e2 state depth alpha beta mp = Some (v, e2', tr)"
    and "max_loop fuel L MaxMoves e state depth ms maxEval alpha beta = Some (v, e', tr) \<Longrightarrow>
           \<exists>e2'. max_loop fuel L MaxMoves e2 state depth ms maxEval alpha beta = Some (v, e2', tr)"
    and "min_loop fuel L MaxMoves e state depth ms minEval alpha beta = Some (v, e', tr) \<Longrightarrow>
           \<exists>e2'. min_loop fuel L MaxMoves e2 state depth ms minEval alpha beta = Some (v, e2', tr)"
proof (induction fuel L MaxMoves e state depth alpha beta mp
    and fuel L MaxMoves e state depth ms maxEval alpha beta
    and fuel L MaxMoves e state depth ms minEval alpha beta
    arbitrary: v e' tr e2 and v e' tr e2 and v e' tr e2
    rule: minimax_max_loop_min_loop.induct)
  case (1 L MaxMoves e state depth alpha beta maximizingPlayer)
  then show ?case by simp
next
  case (2 fuel L MaxMoves e state depth alpha beta maximizingPlayer)
  show ?case
  proof (cases "depth = 0 \<or> isTerminal L state")
    case True
    with "2.prems" show ?thesis by (auto simp: Let_def)
  next
    case False
    show ?thesis
    proof (cases maximizingPlayer)
      case True
      with False "2.prems" obtain e1 tr1 where
        l: "max_loop fuel L MaxMoves (e\<lparr>nodesSearched := nodesSearched e + 1\<rparr>) state depth
              (generateMoves L state MaxMoves) (- 32000) alpha beta = Some (v, e1, tr1)"
        and tr: "tr = [Enter_minimax state depth alpha beta maximizingPlayer,
                       Call_isTerminal state, Call_generateMoves state] @ tr1"
        by (auto simp: Let_def split: option.splits)
      from "2.IH"(1) [OF refl refl _ _ refl refl True l, of "e2\<lparr>nodesSearched := nodesSearched e2 + 1\<rparr>"]
        False
      obtain e2' where "max_loop fuel L MaxMoves (e2\<lparr>nodesSearched := nodesSearched e2 + 1\<rparr>)
          state depth (generateMoves L state MaxMoves) (- 32000) alpha beta = Some (v, e2', tr1)"
        by auto
      with False True tr show ?thesis by (simp add: Let_def)
    next
      case mp: False
      with False "2.prems" obtain e1 tr1 where
        l: "min_loop fuel L MaxMoves (e\<lparr>nodesSearched := nodesSearched e + 1\<rparr>) state depth
              (generateMoves L state MaxMoves) 32000 alpha beta = Some (v, e1, tr1)"
        and tr: "tr = [Enter_minimax state depth alpha beta maximizingPlayer,
                       Call_isTerminal state, Call_generateMoves state] @ tr1"
        by (auto simp: Let_def split: option.splits)
      from "2.IH"(2) [OF refl refl _ _ refl refl mp l, of "e2\<lparr>nodesSearched := nodesSearched e2 + 1\<rparr>"]
        False
      obtain e2' where "min_loop fuel L MaxMoves (e2\<lparr>nodesSearched := nodesSearched e2 + 1\<rparr>)
          state depth (generateMoves L state MaxMoves) 32000 alpha beta = Some (v, e2', tr1)"
        by auto
      with False mp tr show ?thesis by (simp add: Let_def)
    qed
  qed
next
  case (3 fuel L MaxMoves e state depth maxEval alpha beta)
  then show ?case by simp
next
  case (4 fuel L MaxMoves e state depth m ms maxEval alpha beta)
  from "4.prems" obtain ev e1 tr1 where
    c: "minimax fuel L MaxMoves e (applyMove L state m) (depth - 1) alpha beta False = Some (ev, e1, tr1)"
    by (auto simp: Let_def split: option.splits)
  from "4.IH"(1) [OF refl refl c, of e2] obtain e21 where
    c2: "minimax fuel L MaxMoves e2 (applyMove L state m) (depth - 1) alpha beta False = Some (ev, e21, tr1)"
    by auto
  show ?case
  proof (cases "beta \<le> max alpha ev")
    case True
    with c c2 "4.prems" show ?thesis by (auto simp: Let_def)
  next
    case False
    with c "4.prems" obtain e3 tr2 where
      l: "max_loop fuel L MaxMoves e1 state depth ms (max maxEval ev) (max alpha ev) beta = Some (v, e3, tr2)"
      and tr: "tr = [Copy_state state, Call_applyMove state m] @ tr1 @ tr2"
      by (auto simp: Let_def split: option.splits)
    from "4.IH"(2) [OF refl refl c refl refl refl refl False l, of e21] obtain e23 where
      "max_loop fuel L MaxMoves e21 state depth ms (max maxEval ev) (max alpha ev) beta = Some (v, e23, tr2)"
      by auto
    with c2 False tr show ?thesis by (simp add: Let_def)
  qed
next
  case (5 fuel L MaxMoves e state depth minEval alpha beta)
  then show ?case by simp
next
  case (6 fuel L MaxMoves e state depth m ms minEval alpha beta)
  from "6.prems" obtain ev e1 tr1 where
    c: "minimax fuel L MaxMoves e (applyMove L state m) (depth - 1) alpha beta True = Some (ev, e1, tr1)"
    by (auto simp: Let_def split: option.splits)
  from "6.IH"(1) [OF refl refl c, of e2] obtain e21 where
    c2: "minimax fuel L MaxMoves e2 (applyMove L state m) (depth - 1) alpha beta True = Some (ev, e21, tr1)"
    by auto
  show ?case
  proof (cases "min beta ev \<le> alpha")
    case True
    with c c2 "6.prems" show ?thesis by (auto simp: Let_def)
  next
    case False
    with c "6.prems" obtain e3 tr2 where
      l: "min_loop fuel L MaxMoves e1 state depth ms (min minEval ev) alpha (min beta ev) = Some (v, e3, tr2)"
      and tr: "tr = [Copy_state state, Call_applyMove state m] @ tr1 @ tr2"
      by (auto simp: Let_def split: option.splits)
    from "6.IH"(2) [OF refl refl c refl refl refl refl False l, of e21] obtain e23 where
      "min_loop fuel L MaxMoves e21 state depth ms (min minEval ev) alpha (min beta ev) = Some (v, e23, tr2)"
      by auto
    with c2 False tr show ?thesis by (simp add: Let_def)
  qed
qed

text \<open>
  From a depth \<open>d \<ge> 0\<close> the search returns as soon as it may nest \<open>d + 1\<close> frames.
\<close>

lemma minimax_returns:
  fixes e :: "'w::len engine"
  shows "0 \<le> depth \<Longrightarrow> nat depth < fuel \<Longrightarrow>
           \<exists>r. minimax fuel L MaxMoves e state depth alpha beta mp = Some r"
    and "1 \<le> depth \<Longrightarrow> nat depth \<le> fuel \<Longrightarrow>
           \<exists>r. max_loop fuel L MaxMoves e state depth ms maxEval alpha beta = Some r"
    and "1 \<le> depth \<Longrightarrow> nat depth \<le> fuel \<Longrightarrow>
           \<exists>r. min_loop fuel L MaxMoves e state depth ms minEval alpha beta = Some r"
proof (induction fuel L MaxMoves e state depth alpha beta mp
    and fuel L MaxMoves e state depth ms maxEval alpha beta
    and fuel L MaxMoves e state depth ms minEval alpha beta
    rule: minimax_max_loop_min_loop.induct)
  case (1 L MaxMoves e state depth alpha beta maximizingPlayer)
  then show ?case by simp
next
  case (2 fuel L MaxMoves e state depth alpha beta maximizingPlayer)
  show ?case
  proof (cases "depth = 0 \<or> isTerminal L state")
    case True
    then show ?thesis by (auto simp: Let_def)
  next
    case False
    with "2.prems" have d: "1 \<le> depth" "nat depth \<le> fuel" by auto
    show ?thesis
      using False "2.IH"(1) [OF refl refl _ _ refl refl _ d] "2.IH"(2) [OF refl refl _ _ refl refl _ d]
      by (cases maximizingPlayer) (auto simp: Let_def)
  qed
next
  case (3 fuel L MaxMoves e state depth maxEval alpha beta)
  then show ?case by simp
next
  case (4 fuel L MaxMoves e state depth m ms maxEval alpha beta)
  from "4.prems" have d: "0 \<le> depth - 1" "nat (depth - 1) < fuel" by auto
  from "4.IH"(1) [OF refl refl d] obtain ev e1 tr1 where
    c: "minimax fuel L MaxMoves e (applyMove L state m) (depth - 1) alpha beta False = Some (ev, e1, tr1)"
    by (metis prod_cases3)
  show ?case
    using c "4.IH"(2) [OF refl refl c refl refl refl refl _ "4.prems"]
    by (cases "beta \<le> max alpha ev") (auto simp: Let_def)
next
  case (5 fuel L MaxMoves e state depth minEval alpha beta)
  then show ?case by simp
next
  case (6 fuel L MaxMoves e state depth m ms minEval alpha beta)
  from "6.prems" have d: "0 \<le> depth - 1" "nat (depth - 1) < fuel" by auto
  from "6.IH"(1) [OF refl refl d] obtain ev e1 tr1 where
    c: "minimax fuel L MaxMoves e (applyMove L state m) (depth - 1) alpha beta True = Some (ev, e1, tr1)"
    by (metis prod_cases3)
  show ?case
    using c "6.IH"(2) [OF refl refl c refl refl refl refl _ "6.prems"]
    by (cases "min beta ev \<le> alpha") (auto simp: Let_def)
qed

text \<open>
  From a depth \<open>d \<ge> 0\<close> every entry into \<open>minimax\<close> has a depth in \<open>0 .. d\<close>.
\<close>

lemma minimax_depths:
  fixes e :: "'w::len engine"
  shows "minimax fuel L MaxMoves e state depth alpha beta mp = Some (v, e', tr) \<Longrightarrow>
           0 \<le> depth \<Longrightarrow> list_all (enter_depth_ok depth) tr"
    and "max_loop fuel L MaxMoves e state depth ms maxEval alpha beta = Some (v, e', tr) \<Longrightarrow>
           1 \<le> depth \<Longrightarrow> list_all (enter_depth_ok (depth - 1)) tr"
    and "min_loop fuel L MaxMoves e state depth ms minEval alpha beta = Some (v, e', tr) \<Longrightarrow>
           1 \<le> depth \<Longrightarrow> list_all (enter_depth_ok (depth - 1)) tr"
proof (induction fuel L MaxMoves e state depth alpha beta mp
    and fuel L MaxMoves e state depth ms maxEval alpha beta
    and fuel L MaxMoves e state depth ms minEval alpha beta
    arbitrary: v e' tr and v e' tr and v e' tr
    rule: minimax_max_loop_min_loop.induct)
  case (1 L MaxMoves e state depth alpha beta maximizingPlayer)
  then show ?case by simp
next
  case (2 fuel L MaxMoves e state depth alpha beta maximizingPlayer)
  have mono: "list_all (enter_depth_ok (depth - 1)) xs \<Longrightarrow> list_all (enter_depth_ok depth) xs" for xs :: "('a, 'b) event list"
  proof (induction xs)
    case (Cons x xs)
    then show ?case by (cases x) auto
  qed simp
  show ?case
    using "2.prems" "2.IH" mono
    by (auto simp: Let_def split: if_splits option.splits)
next
  case (3 fuel L MaxMoves e state depth maxEval alpha beta)
  then show ?case by simp
next
  case (4 fuel L MaxMoves e state depth m ms maxEval alpha beta)
  show ?case
    using "4.prems" "4.IH"
    by (auto simp: Let_def split: if_splits option.splits)
next
  case (5 fuel L MaxMoves e state depth minEval alpha beta)
  then show ?case by simp
next
  case (6 fuel L MaxMoves e state depth m ms minEval alpha beta)
  show ?case
    using "6.prems" "6.IH"
    by (auto simp: Let_def split: if_splits option.splits)
qed

text \<open>
  The nesting bound only decides whether a search fits: a search that returns under a
  bound returns the same under the next larger one.
\<close>

lemma minimax_more_fuel:
  fixes e :: "'w::len engine"
  shows "minimax fuel L MaxMoves e state depth alpha beta mp = Some r \<Longrightarrow>
           minimax (Suc fuel) L MaxMoves e state depth alpha beta mp = Some r"
    and "max_loop fuel L MaxMoves e state depth ms maxEval alpha beta = Some r \<Longrightarrow>
           max_loop (Suc fuel) L MaxMoves e state depth ms maxEval alpha beta = Some r"
    and "min_loop fuel L MaxMoves e state depth ms minEval alpha beta = Some r \<Longrightarrow>
           min_loop (Suc fuel) L MaxMoves e state depth ms minEval alpha beta = Some r"
proof (induction fuel L MaxMoves e state depth alpha beta mp
    and fuel L MaxMoves e state depth ms maxEval alpha beta
    and fuel L MaxMoves e state depth ms minEval alpha beta
    arbitrary: r and r and r
    rule: minimax_max_loop_min_loop.induct)
  case (1 L MaxMoves e state depth alpha beta maximizingPlayer)
  then show ?case by simp
next
  case (2 fuel L MaxMoves e state depth alpha beta maximizingPlayer)
  show ?case
  proof (cases "depth = 0 \<or> isTerminal L state")
    case True
    with "2.prems" show ?thesis by (auto simp: Let_def split: if_splits)
  next
    case False
    show ?thesis
    proof (cases maximizingPlayer)
      case True
      with False "2.prems" obtain r1 where
        l: "max_loop fuel L MaxMoves (e\<lparr>nodesSearched := nodesSearched e + 1\<rparr>) state depth
              (generateMoves L state MaxMoves) (- 32000) alpha beta = Some r1"
        by (auto simp: Let_def split: option.splits)
      from "2.IH"(1) [OF refl refl _ _ refl refl True l] False
      have "max_loop (Suc fuel) L MaxMoves (e\<lparr>nodesSearched := nodesSearched e + 1\<rparr>) state depth
              (generateMoves L state MaxMoves) (- 32000) alpha beta = Some r1" by simp
      with l False True "2.prems" show ?thesis
        by (simp add: Let_def)
    next
      case mp: False
      with False "2.prems" obtain r1 where
        l: "min_loop fuel L MaxMoves (e\<lparr>nodesSearched := nodesSearched e + 1\<rparr>) state depth
              (generateMoves L state MaxMoves) 32000 alpha beta = Some r1"
        by (auto simp: Let_def split: option.splits)
      from "2.IH"(2) [OF refl refl _ _ refl refl mp l] False
      have "min_loop (Suc fuel) L MaxMoves (e\<lparr>nodesSearched := nodesSearched e + 1\<rparr>) state depth
              (generateMoves L state MaxMoves) 32000 alpha beta = Some r1" by simp
      with l False mp "2.prems" show ?thesis
        by (simp add: Let_def)
    qed
  qed
next
  case (3 fuel L MaxMoves e state depth maxEval alpha beta)
  then show ?case by simp
next
  case (4 fuel L MaxMoves e state depth m ms maxEval alpha beta)
  from "4.prems" obtain ev e1 tr1 where
    c: "minimax fuel L MaxMoves e (applyMove L state m) (depth - 1) alpha beta False = Some (ev, e1, tr1)"
    by (auto simp: Let_def split: option.splits)
  from "4.IH"(1) [OF refl refl c]
  have c': "minimax (Suc fuel) L MaxMoves e (applyMove L state m) (depth - 1) alpha beta False =
      Some (ev, e1, tr1)" .
  show ?case
  proof (cases "beta \<le> max alpha ev")
    case True
    with c c' "4.prems" show ?thesis by (simp add: Let_def del: minimax.simps)
  next
    case False
    with c "4.prems" obtain r2 where
      l: "max_loop fuel L MaxMoves e1 state depth ms (max maxEval ev) (max alpha ev) beta = Some r2"
      by (auto simp: Let_def split: option.splits)
    from "4.IH"(2) [OF refl refl c refl refl refl refl False l]
    have "max_loop (Suc fuel) L MaxMoves e1 state depth ms (max maxEval ev) (max alpha ev) beta = Some r2" .
    with c c' l False "4.prems" show ?thesis by (simp add: Let_def del: minimax.simps)
  qed
next
  case (5 fuel L MaxMoves e state depth minEval alpha beta)
  then show ?case by simp
next
  case (6 fuel L MaxMoves e state depth m ms minEval alpha beta)
  from "6.prems" obtain ev e1 tr1 where
    c: "minimax fuel L MaxMoves e (applyMove L state m) (depth - 1) alpha beta True = Some (ev, e1, tr1)"
    by (auto simp: Let_def split: option.splits)
  from "6.IH"(1) [OF refl refl c]
  have c': "minimax (Suc fuel) L MaxMoves e (applyMove L state m) (depth - 1) alpha beta True =
      Some (ev, e1, tr1)" .
  show ?case
  proof (cases "min beta ev \<le> alpha")
    case True
    with c c' "6.prems" show ?thesis by (simp add: Let_def del: minimax.simps)
  next
    case False
    with c "6.prems" obtain r2 where
      l: "min_loop fuel L MaxMoves e1 state depth ms (min minEval ev) alpha (min beta ev) = Some r2"
      by (auto simp: Let_def split: option.splits)
    from "6.IH"(2) [OF refl refl c refl refl refl refl False l]
    have "min_loop (Suc fuel) L MaxMoves e1 state depth ms (min minEval ev) alpha (min beta ev) = Some r2" .
    with c c' l False "6.prems" show ?thesis by (simp add: Let_def del: minimax.simps)
  qed
qed

section \<open>Properties of the root call\<close>

text \<open>
  A search in the engine is the engine-free \<open>search\<close> together with the counter update.
\<close>

lemma minimax_search:
  fixes e :: "'w::len engine"
  shows "minimax fuel L MaxMoves e state depth alpha beta mp = Some (v, e', tr) \<longleftrightarrow>
         search fuel L MaxMoves state depth alpha beta mp = Some (v, tr) \<and>
         e' = e\<lparr>nodesSearched := nodesSearched e + of_nat (invocations tr)\<rparr>"
proof
  assume m: "minimax fuel L MaxMoves e state depth alpha beta mp = Some (v, e', tr)"
  from minimax_engine(1) [OF m, of "Minimax 0 :: 1 engine"] minimax_counter(1) [OF m]
  show "search fuel L MaxMoves state depth alpha beta mp = Some (v, tr) \<and>
        e' = e\<lparr>nodesSearched := nodesSearched e + of_nat (invocations tr)\<rparr>"
    by (auto simp: search_def)
next
  assume s: "search fuel L MaxMoves state depth alpha beta mp = Some (v, tr) \<and>
        e' = e\<lparr>nodesSearched := nodesSearched e + of_nat (invocations tr)\<rparr>"
  then obtain e1 where
    "minimax fuel L MaxMoves (Minimax 0 :: 1 engine) state depth alpha beta mp = Some (v, e1, tr)"
    by (auto simp: search_def)
  from minimax_engine(1) [OF this, of e] obtain e2 where
    m: "minimax fuel L MaxMoves e state depth alpha beta mp = Some (v, e2, tr)" by auto
  from minimax_counter(1) [OF m] s m
  show "minimax fuel L MaxMoves e state depth alpha beta mp = Some (v, e', tr)" by simp
qed

text \<open>
  When every root move's search returns, the root loop returns what \<open>select_best\<close>
  selects from the moves and their scores, and the counter has advanced by the number of
  entries into \<open>minimax\<close>.
\<close>

lemma root_loop_select:
  fixes e :: "'w::len engine"
  assumes "list_all2 (\<lambda>m v. \<exists>tr. search fuel L MaxMoves (applyMove L state m) (MaxDepth - 1)
              (- 32000) 32000 (\<not> isMax) = Some (v, tr)) ms scores"
  shows "\<exists>e' tr. root_loop fuel L MaxMoves MaxDepth isMax state ms bestMove e =
             Some (fst (select_best isMax (zip ms scores) bestMove (bestScore e)), e', tr) \<and>
           bestScore e' = snd (select_best isMax (zip ms scores) bestMove (bestScore e)) \<and>
           nodesSearched e' = nodesSearched e + of_nat (invocations tr)"
  using assms
proof (induction ms scores arbitrary: bestMove e rule: list_all2_induct)
  case Nil
  then show ?case by simp
next
  case (Cons m ms v scores)
  from Cons.hyps(1) obtain tr1 where
    c: "minimax fuel L MaxMoves e (applyMove L state m) (MaxDepth - 1) (- 32000) 32000 (\<not> isMax) =
          Some (v, e\<lparr>nodesSearched := nodesSearched e + of_nat (invocations tr1)\<rparr>, tr1)"
    by (auto simp: minimax_search)
  define e1 where "e1 = e\<lparr>nodesSearched := nodesSearched e + of_nat (invocations tr1)\<rparr>"
  define improves where "improves = (if isMax then v > bestScore e else v < bestScore e)"
  define e2 where "e2 = (if improves then e1\<lparr>bestScore := v\<rparr> else e1)"
  define bm where "bm = (if improves then m else bestMove)"
  from Cons.IH [of bm e2] obtain e' tr2 where
    r: "root_loop fuel L MaxMoves MaxDepth isMax state ms bm e2 =
          Some (fst (select_best isMax (zip ms scores) bm (bestScore e2)), e', tr2)"
       "bestScore e' = snd (select_best isMax (zip ms scores) bm (bestScore e2))"
       "nodesSearched e' = nodesSearched e2 + of_nat (invocations tr2)"
    by blast
  have "bestScore e1 = bestScore e" "nodesSearched e2 = nodesSearched e1"
    by (simp_all add: e1_def e2_def)
  with c r show ?case
    by (auto simp: Let_def e1_def e2_def bm_def improves_def add.assoc)
qed

text \<open>
  What \<open>select_best\<close> selects. If no score is strictly better than the initial one, the
  placeholder stays. Otherwise the selected pair is the first one, in list order, that
  carries the best score.
\<close>

lemma select_best_keeps:
  "\<forall>x\<in>set xs. \<not> (if isMax then snd x > best else snd x < best) \<Longrightarrow>
     select_best isMax xs bestMove best = (bestMove, best)"
  by (induction xs) auto

lemma select_best_first:
  assumes "select_best isMax xs bestMove best = (rm, rv)"
    and "\<exists>x\<in>set xs. (if isMax then snd x > best else snd x < best)"
  shows "\<exists>i<length xs. xs ! i = (rm, rv) \<and>
           (\<forall>j<length xs. if isMax then snd (xs ! j) \<le> rv else rv \<le> snd (xs ! j)) \<and>
           (\<forall>j<i. if isMax then snd (xs ! j) < rv else rv < snd (xs ! j)) \<and>
           (if isMax then best < rv else rv < best)"
  using assms
proof (induction xs arbitrary: bestMove best)
  case Nil
  then show ?case by simp
next
  case (Cons x xs)
  obtain m v where x: "x = (m, v)" by (cases x)
  let ?better = "\<lambda>a b. if isMax then a > b else a < (b::int)"
  show ?case
  proof (cases "?better v best")
    case True
    with Cons.prems x have sel: "select_best isMax xs m v = (rm, rv)"
      by (cases isMax) simp_all
    show ?thesis
    proof (cases "\<exists>y\<in>set xs. ?better (snd y) v")
      case ex: True
      from Cons.IH [OF sel] ex obtain i where i: "i < length xs" "xs ! i = (rm, rv)"
        "\<forall>j<length xs. if isMax then snd (xs ! j) \<le> rv else rv \<le> snd (xs ! j)"
        "\<forall>j<i. if isMax then snd (xs ! j) < rv else rv < snd (xs ! j)"
        "if isMax then v < rv else rv < v"
        by blast
      have "Suc i < length (x # xs)" "(x # xs) ! Suc i = (rm, rv)" using i by simp_all
      moreover have "\<forall>j<length (x # xs). if isMax then snd ((x # xs) ! j) \<le> rv else rv \<le> snd ((x # xs) ! j)"
        using i(3,5) x by (auto simp: nth_Cons' split: if_splits)
      moreover have "\<forall>j<Suc i. if isMax then snd ((x # xs) ! j) < rv else rv < snd ((x # xs) ! j)"
        using i(4,5) x by (auto simp: nth_Cons' less_Suc_eq_0_disj split: if_splits)
      moreover have "if isMax then best < rv else rv < best"
        using i(5) True by (auto split: if_splits)
      ultimately show ?thesis by blast
    next
      case no: False
      then have "\<forall>y\<in>set xs. \<not> ?better (snd y) v" by blast
      from select_best_keeps [OF this] sel have r: "rm = m" "rv = v" by simp_all
      have "0 < length (x # xs)" "(x # xs) ! 0 = (rm, rv)" using x r by simp_all
      moreover have "\<forall>j<length xs. \<not> ?better (snd (xs ! j)) v"
        using no by simp
      then have "\<forall>j<length (x # xs). if isMax then snd ((x # xs) ! j) \<le> rv else rv \<le> snd ((x # xs) ! j)"
        using x r by (cases isMax) (auto simp: nth_Cons' not_less)
      moreover have "if isMax then best < rv else rv < best"
        using True r by (auto split: if_splits)
      ultimately show ?thesis by blast
    qed
  next
    case False
    with Cons.prems x have sel: "select_best isMax xs bestMove best = (rm, rv)"
      and ex: "\<exists>y\<in>set xs. ?better (snd y) best" by (cases isMax; auto)+
    from Cons.IH [OF sel ex] obtain i where i: "i < length xs" "xs ! i = (rm, rv)"
        "\<forall>j<length xs. if isMax then snd (xs ! j) \<le> rv else rv \<le> snd (xs ! j)"
        "\<forall>j<i. if isMax then snd (xs ! j) < rv else rv < snd (xs ! j)"
        "if isMax then best < rv else rv < best"
      by blast
    have "Suc i < length (x # xs)" "(x # xs) ! Suc i = (rm, rv)" using i by simp_all
    moreover have "\<forall>j<length (x # xs). if isMax then snd ((x # xs) ! j) \<le> rv else rv \<le> snd ((x # xs) ! j)"
      using i(3,5) x False by (auto simp: nth_Cons' split: if_splits)
    moreover have "\<forall>j<Suc i. if isMax then snd ((x # xs) ! j) < rv else rv < snd ((x # xs) ! j)"
      using i(4,5) x False by (auto simp: nth_Cons' less_Suc_eq_0_disj split: if_splits)
    ultimately show ?thesis using i(5) by blast
  qed
qed

text \<open>
  A count below \<open>2 ^ (w - 1)\<close> is read back unchanged from a signed \<open>w\<close>-bit counter.
\<close>

lemma sint_of_nat_small:
  "n < 2 ^ (LENGTH('w::len) - 1) \<Longrightarrow> sint (of_nat n :: 'w word) = int n"
proof -
  assume "n < 2 ^ (LENGTH('w) - 1)"
  then have "int n < 2 ^ (LENGTH('w) - Suc 0)"
    by (metis One_nat_def of_nat_less_iff of_nat_numeral of_nat_power)
  moreover have "- (2 ^ (LENGTH('w) - Suc 0)) \<le> int n"
    by (rule order_trans [of _ 0]) simp_all
  ultimately have "signed_take_bit (LENGTH('w) - Suc 0) (int n) = int n"
    by (rule signed_take_bit_int_eq_self [rotated])
  then show ?thesis
    by (simp add: signed_of_nat)
qed

text \<open>
  The root call as a whole, when the root has a move and every root move's search
  returns; then the counter, the return and the depths of the root loop without that
  assumption.
\<close>

lemma root_child_search:
  "root_child_score fuel L MaxMoves MaxDepth state m = Some v \<longleftrightarrow>
     (\<exists>tr. search fuel L MaxMoves (applyMove L state m) (MaxDepth - 1) (- 32000) 32000
             (\<not> isMaximizingPlayer L state) = Some (v, tr))"
  by (auto simp: root_child_score_def)

lemma findBestMove_select:
  fixes e :: "'w::len engine"
  assumes ms: "generateMoves L state MaxMoves = ms" "ms \<noteq> []"
    and sc: "list_all2 (\<lambda>m v. root_child_score fuel L MaxMoves MaxDepth state m = Some v) ms scores"
  shows "\<exists>e' tr. findBestMove fuel L MaxMoves MaxDepth default_Move e state =
             Some (fst (select_best (isMaximizingPlayer L state) (zip ms scores) default_Move
                          (if isMaximizingPlayer L state then - 32000 else 32000)), e', tr) \<and>
           bestScore e' = snd (select_best (isMaximizingPlayer L state) (zip ms scores) default_Move
                          (if isMaximizingPlayer L state then - 32000 else 32000))"
proof -
  let ?isMax = "isMaximizingPlayer L state"
  let ?e1 = "e\<lparr>bestScore := (if ?isMax then - 32000 else 32000), nodesSearched := 0\<rparr>"
  from sc have "list_all2 (\<lambda>m v. \<exists>tr. search fuel L MaxMoves (applyMove L state m) (MaxDepth - 1)
              (- 32000) 32000 (\<not> ?isMax) = Some (v, tr)) ms scores"
    by (simp add: root_child_search)
  from root_loop_select [OF this, of default_Move ?e1] ms
  show ?thesis
    by (auto simp: findBestMove_def Let_def)
qed

lemma root_loop_counter:
  fixes e :: "'w::len engine"
  shows "root_loop fuel L MaxMoves MaxDepth isMax state ms bestMove e = Some (mv, e', tr) \<Longrightarrow>
           nodesSearched e' = nodesSearched e + of_nat (invocations tr)"
proof (induction ms arbitrary: bestMove e mv e' tr)
  case Nil
  then show ?case by simp
next
  case (Cons m ms)
  from Cons.prems obtain v e1 tr1 where
    c: "minimax fuel L MaxMoves e (applyMove L state m) (MaxDepth - 1) (- 32000) 32000 (\<not> isMax) =
          Some (v, e1, tr1)"
    by (auto simp: Let_def split: option.splits)
  from minimax_counter(1) [OF c]
  have e1: "e1 = e\<lparr>nodesSearched := nodesSearched e + of_nat (invocations tr1)\<rparr>" .
  define improves where "improves = (if isMax then v > bestScore e1 else v < bestScore e1)"
  from c Cons.prems obtain tr2 where
    r: "root_loop fuel L MaxMoves MaxDepth isMax state ms (if improves then m else bestMove)
          (if improves then e1\<lparr>bestScore := v\<rparr> else e1) = Some (mv, e', tr2)"
    and tr: "tr = [Copy_state state, Call_applyMove state m] @ tr1 @ tr2"
    by (auto simp: Let_def improves_def split: option.splits)
  from Cons.IH [OF r] e1 tr show ?case
    by (auto simp: add.assoc split: if_splits)
qed

lemma root_loop_returns:
  fixes e :: "'w::len engine"
  assumes "1 \<le> MaxDepth" and "nat MaxDepth \<le> fuel"
  shows "\<exists>r. root_loop fuel L MaxMoves MaxDepth isMax state ms bestMove e = Some r"
proof (induction ms arbitrary: bestMove e)
  case Nil
  then show ?case by simp
next
  case (Cons m ms)
  from assms have "0 \<le> MaxDepth - 1" "nat (MaxDepth - 1) < fuel" by auto
  from minimax_returns(1) [OF this] obtain v e1 tr1 where
    c: "minimax fuel L MaxMoves e (applyMove L state m) (MaxDepth - 1) (- 32000) 32000 (\<not> isMax) =
          Some (v, e1, tr1)"
    by (metis prod_cases3)
  define improves where "improves = (if isMax then v > bestScore e1 else v < bestScore e1)"
  from Cons.IH [of "if improves then m else bestMove" "if improves then e1\<lparr>bestScore := v\<rparr> else e1"]
  obtain r where "root_loop fuel L MaxMoves MaxDepth isMax state ms (if improves then m else bestMove)
          (if improves then e1\<lparr>bestScore := v\<rparr> else e1) = Some r" by blast
  with c show ?case
    by (cases r) (auto simp: Let_def improves_def)
qed

lemma root_loop_depths:
  fixes e :: "'w::len engine"
  assumes "1 \<le> MaxDepth"
  shows "root_loop fuel L MaxMoves MaxDepth isMax state ms bestMove e = Some (mv, e', tr) \<Longrightarrow>
           list_all (enter_depth_ok (MaxDepth - 1)) tr"
proof (induction ms arbitrary: bestMove e mv e' tr)
  case Nil
  then show ?case by simp
next
  case (Cons m ms)
  from Cons.prems obtain v e1 tr1 where
    c: "minimax fuel L MaxMoves e (applyMove L state m) (MaxDepth - 1) (- 32000) 32000 (\<not> isMax) =
          Some (v, e1, tr1)"
    by (auto simp: Let_def split: option.splits)
  from minimax_depths(1) [OF c] assms have d: "list_all (enter_depth_ok (MaxDepth - 1)) tr1" by simp
  define improves where "improves = (if isMax then v > bestScore e1 else v < bestScore e1)"
  from c Cons.prems obtain tr2 where
    r: "root_loop fuel L MaxMoves MaxDepth isMax state ms (if improves then m else bestMove)
          (if improves then e1\<lparr>bestScore := v\<rparr> else e1) = Some (mv, e', tr2)"
    and tr: "tr = [Copy_state state, Call_applyMove state m] @ tr1 @ tr2"
    by (auto simp: Let_def improves_def split: option.splits)
  from Cons.IH [OF r] d tr show ?case by simp
qed

lemma minimax_first_event:
  "minimax fuel L MaxMoves e state depth alpha beta mp = Some (v, e', tr) \<Longrightarrow>
     \<exists>tr'. tr = Enter_minimax state depth alpha beta mp # tr'"
  by (cases fuel) (auto simp: Let_def split: if_splits option.splits)

lemma loop_first_events:
  fixes e :: "'w::len engine"
  shows "max_loop fuel L MaxMoves e state depth (m # ms) maxEval alpha beta = Some (r, e', tr) \<Longrightarrow>
           take 3 tr = [Copy_state state, Call_applyMove state m,
                        Enter_minimax (applyMove L state m) (depth - 1) alpha beta False]"
    and "min_loop fuel L MaxMoves e state depth (m # ms) minEval alpha beta = Some (r, e', tr) \<Longrightarrow>
           take 3 tr = [Copy_state state, Call_applyMove state m,
                        Enter_minimax (applyMove L state m) (depth - 1) alpha beta True]"
proof -
  assume l: "max_loop fuel L MaxMoves e state depth (m # ms) maxEval alpha beta = Some (r, e', tr)"
  then obtain ev e1 tr1 where
    c: "minimax fuel L MaxMoves e (applyMove L state m) (depth - 1) alpha beta False = Some (ev, e1, tr1)"
    by (auto simp: Let_def split: option.splits)
  from minimax_first_event [OF c] obtain tr' where
    "tr1 = Enter_minimax (applyMove L state m) (depth - 1) alpha beta False # tr'" by blast
  with l c show "take 3 tr = [Copy_state state, Call_applyMove state m,
                        Enter_minimax (applyMove L state m) (depth - 1) alpha beta False]"
    by (auto simp: Let_def split: if_splits option.splits)
next
  assume l: "min_loop fuel L MaxMoves e state depth (m # ms) minEval alpha beta = Some (r, e', tr)"
  then obtain ev e1 tr1 where
    c: "minimax fuel L MaxMoves e (applyMove L state m) (depth - 1) alpha beta True = Some (ev, e1, tr1)"
    by (auto simp: Let_def split: option.splits)
  from minimax_first_event [OF c] obtain tr' where
    "tr1 = Enter_minimax (applyMove L state m) (depth - 1) alpha beta True # tr'" by blast
  with l c show "take 3 tr = [Copy_state state, Call_applyMove state m,
                        Enter_minimax (applyMove L state m) (depth - 1) alpha beta True]"
    by (auto simp: Let_def split: if_splits option.splits)
qed

lemma root_loop_enters:
  fixes e :: "'w::len engine"
  shows "root_loop fuel L MaxMoves MaxDepth isMax state ms bestMove e = Some (mv, e', tr) \<Longrightarrow>
           \<forall>m\<in>set ms. Enter_minimax (applyMove L state m) (MaxDepth - 1) (- 32000) 32000 (\<not> isMax)
                         \<in> set tr"
proof (induction ms arbitrary: bestMove e mv e' tr)
  case Nil
  then show ?case by simp
next
  case (Cons m ms)
  from Cons.prems obtain v e1 tr1 where
    c: "minimax fuel L MaxMoves e (applyMove L state m) (MaxDepth - 1) (- 32000) 32000 (\<not> isMax) =
          Some (v, e1, tr1)"
    by (auto simp: Let_def split: option.splits)
  from minimax_first_event [OF c]
  have h: "Enter_minimax (applyMove L state m) (MaxDepth - 1) (- 32000) 32000 (\<not> isMax) \<in> set tr1"
    by auto
  define improves where "improves = (if isMax then v > bestScore e1 else v < bestScore e1)"
  from c Cons.prems obtain tr2 where
    r: "root_loop fuel L MaxMoves MaxDepth isMax state ms (if improves then m else bestMove)
          (if improves then e1\<lparr>bestScore := v\<rparr> else e1) = Some (mv, e', tr2)"
    and tr: "tr = [Copy_state state, Call_applyMove state m] @ tr1 @ tr2"
    by (auto simp: Let_def improves_def split: option.splits)
  from Cons.IH [OF r] h tr show ?case by auto
qed

text \<open>
  Likewise for the root call, under every larger bound.
\<close>

lemma root_loop_more_fuel:
  fixes e :: "'w::len engine"
  shows "root_loop fuel L MaxMoves MaxDepth isMax state ms bestMove e = Some r \<Longrightarrow>
           root_loop (Suc fuel) L MaxMoves MaxDepth isMax state ms bestMove e = Some r"
proof (induction ms arbitrary: bestMove e r)
  case Nil
  then show ?case by simp
next
  case (Cons m ms)
  from Cons.prems obtain v e1 tr1 where
    c: "minimax fuel L MaxMoves e (applyMove L state m) (MaxDepth - 1) (- 32000) 32000 (\<not> isMax) =
          Some (v, e1, tr1)"
    by (auto simp: Let_def split: option.splits)
  from minimax_more_fuel(1) [OF c]
  have c': "minimax (Suc fuel) L MaxMoves e (applyMove L state m) (MaxDepth - 1) (- 32000) 32000 (\<not> isMax) =
          Some (v, e1, tr1)" .
  define improves where "improves = (if isMax then v > bestScore e1 else v < bestScore e1)"
  from c Cons.prems obtain r2 where
    r: "root_loop fuel L MaxMoves MaxDepth isMax state ms (if improves then m else bestMove)
          (if improves then e1\<lparr>bestScore := v\<rparr> else e1) = Some r2"
    by (auto simp: Let_def improves_def split: option.splits)
  from Cons.IH [OF r] r c c' Cons.prems show ?case
    by (simp add: Let_def improves_def del: minimax.simps)
qed

lemma findBestMove_more_fuel:
  fixes e :: "'w::len engine"
  assumes "findBestMove fuel L MaxMoves MaxDepth default_Move e state = Some r" and "fuel \<le> fuel'"
  shows "findBestMove fuel' L MaxMoves MaxDepth default_Move e state = Some r"
proof -
  have suc: "findBestMove (Suc f) L MaxMoves MaxDepth default_Move e state = Some r"
    if "findBestMove f L MaxMoves MaxDepth default_Move e state = Some r" for f
  proof (cases "generateMoves L state MaxMoves = []")
    case True
    with that show ?thesis by (simp add: findBestMove_def)
  next
    case False
    let ?isMax = "isMaximizingPlayer L state"
    let ?e1 = "e\<lparr>bestScore := (if ?isMax then - 32000 else 32000), nodesSearched := 0\<rparr>"
    from False that obtain r1 where
      l: "root_loop f L MaxMoves MaxDepth ?isMax state (generateMoves L state MaxMoves) default_Move ?e1 =
            Some r1"
      by (auto simp: findBestMove_def Let_def split: option.splits)
    from root_loop_more_fuel [OF l] l False that show ?thesis
      by (simp add: findBestMove_def Let_def)
  qed
  from assms(2) show ?thesis
  proof (induction rule: dec_induct)
    case base
    show ?case by (rule assms(1))
  next
    case (step n)
    then show ?case by (simp add: suc)
  qed
qed

section \<open>Pruning against exhaustive search\<close>

text \<open>
  The running extreme of the exhaustive loops only grows (or only shrinks), and starting a
  loop from another value changes the result by that value alone.
\<close>

lemma exhaustive_max_ge:
  "exhaustive_max fuel L MaxMoves state depth ms a = Some V \<Longrightarrow> a \<le> V"
proof (induction ms arbitrary: a)
  case (Cons m ms)
  then obtain v where "exhaustive_max fuel L MaxMoves state depth ms (max a v) = Some V"
    by (auto split: option.splits)
  from Cons.IH [OF this] show ?case by simp
qed simp

lemma exhaustive_min_le:
  "exhaustive_min fuel L MaxMoves state depth ms a = Some V \<Longrightarrow> V \<le> a"
proof (induction ms arbitrary: a)
  case (Cons m ms)
  then obtain v where "exhaustive_min fuel L MaxMoves state depth ms (min a v) = Some V"
    by (auto split: option.splits)
  from Cons.IH [OF this] show ?case by simp
qed simp

lemma exhaustive_max_acc:
  "exhaustive_max fuel L MaxMoves state depth ms a = Some V \<Longrightarrow>
     \<exists>W. exhaustive_max fuel L MaxMoves state depth ms b = Some W \<and> max W a = max V b"
proof (induction ms arbitrary: a b)
  case Nil
  then show ?case by (auto simp: max.commute)
next
  case (Cons m ms)
  from Cons.prems obtain v where
    v: "exhaustive fuel L MaxMoves (applyMove L state m) (depth - 1) False = Some v"
    and r: "exhaustive_max fuel L MaxMoves state depth ms (max a v) = Some V"
    by (auto split: option.splits)
  from Cons.IH [OF r, of "max b v"] obtain W where
    W: "exhaustive_max fuel L MaxMoves state depth ms (max b v) = Some W"
       "max W (max a v) = max V (max b v)" by blast
  from exhaustive_max_ge [OF r] exhaustive_max_ge [OF W(1)] W(2)
  have "max W a = max V b" by (auto simp: max_def split: if_splits)
  with v W(1) show ?case by simp
qed

lemma exhaustive_min_acc:
  "exhaustive_min fuel L MaxMoves state depth ms a = Some V \<Longrightarrow>
     \<exists>W. exhaustive_min fuel L MaxMoves state depth ms b = Some W \<and> min W a = min V b"
proof (induction ms arbitrary: a b)
  case Nil
  then show ?case by (auto simp: min.commute)
next
  case (Cons m ms)
  from Cons.prems obtain v where
    v: "exhaustive fuel L MaxMoves (applyMove L state m) (depth - 1) True = Some v"
    and r: "exhaustive_min fuel L MaxMoves state depth ms (min a v) = Some V"
    by (auto split: option.splits)
  from Cons.IH [OF r, of "min b v"] obtain W where
    W: "exhaustive_min fuel L MaxMoves state depth ms (min b v) = Some W"
       "min W (min a v) = min V (min b v)" by blast
  from exhaustive_min_le [OF r] exhaustive_min_le [OF W(1)] W(2)
  have "min W a = min V b" by (auto simp: min_def split: if_splits)
  with v W(1) show ?case by simp
qed

text \<open>
  The arithmetic of one loop iteration: how the relation for the rest of the loop and the
  relation for the child just searched combine, without and with a cutoff.
\<close>

lemma max_step:
  fixes M :: int
  assumes "max W (max M v1) = max V (max M r1)" and "max M v1 \<le> V" and "max M r1 \<le> W"
    and "fail_soft alpha beta v1 r1" and "max alpha r1 < beta"
    and "max M r1 \<le> r" and "fail_soft (max alpha r1) beta W r"
  shows "fail_soft alpha beta V r"
  using assms unfolding fail_soft_def max_def by (auto split: if_splits)

lemma min_step:
  fixes M :: int
  assumes "min W (min M v1) = min V (min M r1)" and "V \<le> min M v1" and "W \<le> min M r1"
    and "fail_soft alpha beta v1 r1" and "alpha < min beta r1"
    and "r \<le> min M r1" and "fail_soft alpha (min beta r1) W r"
  shows "fail_soft alpha beta V r"
  using assms unfolding fail_soft_def min_def by (auto split: if_splits)

lemma max_cut:
  fixes M :: int
  assumes "max M v1 \<le> V" and "fail_soft alpha beta v1 r1" and "alpha < beta" and "beta \<le> max alpha r1"
  shows "fail_soft alpha beta V (max M r1)"
  using assms unfolding fail_soft_def max_def by (auto split: if_splits)

lemma min_cut:
  fixes M :: int
  assumes "V \<le> min M v1" and "fail_soft alpha beta v1 r1" and "alpha < beta" and "min beta r1 \<le> alpha"
  shows "fail_soft alpha beta V (min M r1)"
  using assms unfolding fail_soft_def min_def by (auto split: if_splits)

text \<open>
  Whenever the exhaustive search returns within the nesting bound, so does the pruned
  search, with a score that relates to the exhaustive value as \<open>fail_soft\<close> says. No
  assumption is made on the scores that \<open>evaluate\<close> returns.
\<close>

lemma pruning_fail_soft:
  fixes e :: "'w::len engine"
  shows "exhaustive fuel L MaxMoves state depth mp = Some v \<Longrightarrow> alpha < beta \<Longrightarrow>
           \<exists>r e' tr. minimax fuel L MaxMoves e state depth alpha beta mp = Some (r, e', tr) \<and>
             fail_soft alpha beta v r"
    and "exhaustive_max fuel L MaxMoves state depth ms maxEval = Some v \<Longrightarrow> alpha < beta \<Longrightarrow>
           \<exists>r e' tr. max_loop fuel L MaxMoves e state depth ms maxEval alpha beta = Some (r, e', tr) \<and>
             maxEval \<le> r \<and> fail_soft alpha beta v r"
    and "exhaustive_min fuel L MaxMoves state depth ms minEval = Some v \<Longrightarrow> alpha < beta \<Longrightarrow>
           \<exists>r e' tr. min_loop fuel L MaxMoves e state depth ms minEval alpha beta = Some (r, e', tr) \<and>
             r \<le> minEval \<and> fail_soft alpha beta v r"
proof (induction fuel L MaxMoves e state depth alpha beta mp
    and fuel L MaxMoves e state depth ms maxEval alpha beta
    and fuel L MaxMoves e state depth ms minEval alpha beta
    arbitrary: v and v and v
    rule: minimax_max_loop_min_loop.induct)
  case (1 L MaxMoves e state depth alpha beta maximizingPlayer)
  then show ?case by simp
next
  case (2 fuel L MaxMoves e state depth alpha beta maximizingPlayer)
  show ?case
  proof (cases "depth = 0 \<or> isTerminal L state")
    case True
    with "2.prems" show ?thesis by (auto simp: Let_def fail_soft_def)
  next
    case False
    show ?thesis
    proof (cases maximizingPlayer)
      case True
      with False "2.prems" have
        "exhaustive_max fuel L MaxMoves state depth (generateMoves L state MaxMoves) (- 32000) = Some v"
        by simp
      from "2.IH"(1) [OF refl refl _ _ refl refl True this "2.prems"(2)] False
      obtain r e' tr where
        "max_loop fuel L MaxMoves (e\<lparr>nodesSearched := nodesSearched e + 1\<rparr>) state depth
           (generateMoves L state MaxMoves) (- 32000) alpha beta = Some (r, e', tr)"
        "fail_soft alpha beta v r"
        by auto
      with False True show ?thesis by (simp add: Let_def)
    next
      case mp: False
      with False "2.prems" have
        "exhaustive_min fuel L MaxMoves state depth (generateMoves L state MaxMoves) 32000 = Some v"
        by simp
      from "2.IH"(2) [OF refl refl _ _ refl refl mp this "2.prems"(2)] False
      obtain r e' tr where
        "min_loop fuel L MaxMoves (e\<lparr>nodesSearched := nodesSearched e + 1\<rparr>) state depth
           (generateMoves L state MaxMoves) 32000 alpha beta = Some (r, e', tr)"
        "fail_soft alpha beta v r"
        by auto
      with False mp show ?thesis by (simp add: Let_def)
    qed
  qed
next
  case (3 fuel L MaxMoves e state depth maxEval alpha beta)
  then show ?case by (simp add: fail_soft_def)
next
  case (4 fuel L MaxMoves e state depth m ms maxEval alpha beta)
  from "4.prems"(1) obtain v1 where
    v1: "exhaustive fuel L MaxMoves (applyMove L state m) (depth - 1) False = Some v1"
    and rest: "exhaustive_max fuel L MaxMoves state depth ms (max maxEval v1) = Some v"
    by (auto split: option.splits)
  from "4.IH"(1) [OF refl refl v1 "4.prems"(2)] obtain r1 e1 tr1 where
    c: "minimax fuel L MaxMoves e (applyMove L state m) (depth - 1) alpha beta False = Some (r1, e1, tr1)"
    and fs1: "fail_soft alpha beta v1 r1"
    by blast
  show ?case
  proof (cases "beta \<le> max alpha r1")
    case True
    from max_cut [OF exhaustive_max_ge [OF rest] fs1 "4.prems"(2) True] c True
    show ?thesis by (simp add: Let_def)
  next
    case False
    then have lt: "max alpha r1 < beta" by (simp only: not_le)
    from exhaustive_max_acc [OF rest, of "max maxEval r1"] obtain W where
      W: "exhaustive_max fuel L MaxMoves state depth ms (max maxEval r1) = Some W"
         "max W (max maxEval v1) = max v (max maxEval r1)"
      by blast
    from "4.IH"(2) [OF refl refl c refl refl refl refl False W(1) lt] obtain r e' tr where
      l: "max_loop fuel L MaxMoves e1 state depth ms (max maxEval r1) (max alpha r1) beta = Some (r, e', tr)"
      and ge: "max maxEval r1 \<le> r" and fs: "fail_soft (max alpha r1) beta W r"
      by blast
    from max_step [OF W(2) exhaustive_max_ge [OF rest] exhaustive_max_ge [OF W(1)] fs1 lt ge fs]
    have "fail_soft alpha beta v r" .
    with c l False ge show ?thesis by (simp add: Let_def)
  qed
next
  case (5 fuel L MaxMoves e state depth minEval alpha beta)
  then show ?case by (simp add: fail_soft_def)
next
  case (6 fuel L MaxMoves e state depth m ms minEval alpha beta)
  from "6.prems"(1) obtain v1 where
    v1: "exhaustive fuel L MaxMoves (applyMove L state m) (depth - 1) True = Some v1"
    and rest: "exhaustive_min fuel L MaxMoves state depth ms (min minEval v1) = Some v"
    by (auto split: option.splits)
  from "6.IH"(1) [OF refl refl v1 "6.prems"(2)] obtain r1 e1 tr1 where
    c: "minimax fuel L MaxMoves e (applyMove L state m) (depth - 1) alpha beta True = Some (r1, e1, tr1)"
    and fs1: "fail_soft alpha beta v1 r1"
    by blast
  show ?case
  proof (cases "min beta r1 \<le> alpha")
    case True
    from min_cut [OF exhaustive_min_le [OF rest] fs1 "6.prems"(2) True] c True
    show ?thesis by (simp add: Let_def)
  next
    case False
    then have lt: "alpha < min beta r1" by (simp only: not_le)
    from exhaustive_min_acc [OF rest, of "min minEval r1"] obtain W where
      W: "exhaustive_min fuel L MaxMoves state depth ms (min minEval r1) = Some W"
         "min W (min minEval v1) = min v (min minEval r1)"
      by blast
    from "6.IH"(2) [OF refl refl c refl refl refl refl False W(1) lt] obtain r e' tr where
      l: "min_loop fuel L MaxMoves e1 state depth ms (min minEval r1) alpha (min beta r1) = Some (r, e', tr)"
      and le: "r \<le> min minEval r1" and fs: "fail_soft alpha (min beta r1) W r"
      by blast
    from min_step [OF W(2) exhaustive_min_le [OF rest] exhaustive_min_le [OF W(1)] fs1 lt le fs]
    have "fail_soft alpha beta v r" .
    with c l False le show ?thesis by (simp add: Let_def)
  qed
qed

lemma exhaustive_returns:
  shows "0 \<le> depth \<Longrightarrow> nat depth < fuel \<Longrightarrow>
           \<exists>v. exhaustive fuel L MaxMoves state depth mp = Some v"
    and "1 \<le> depth \<Longrightarrow> nat depth \<le> fuel \<Longrightarrow>
           \<exists>v. exhaustive_max fuel L MaxMoves state depth ms best = Some v"
    and "1 \<le> depth \<Longrightarrow> nat depth \<le> fuel \<Longrightarrow>
           \<exists>v. exhaustive_min fuel L MaxMoves state depth ms best = Some v"
proof (induction fuel L MaxMoves state depth mp
    and fuel L MaxMoves state depth ms best
    and fuel L MaxMoves state depth ms best
    rule: exhaustive_exhaustive_max_exhaustive_min.induct)
  case (1 L MaxMoves state depth maximizing)
  then show ?case by simp
next
  case (2 fuel L MaxMoves state depth maximizing)
  show ?case
  proof (cases "depth = 0 \<or> isTerminal L state")
    case True
    then show ?thesis by auto
  next
    case False
    with "2.prems" have d: "1 \<le> depth" "nat depth \<le> fuel" by auto
    from False "2.IH"(1) [OF False _ d] "2.IH"(2) [OF False _ d]
    show ?thesis by (cases maximizing) auto
  qed
next
  case (3 fuel L MaxMoves state depth best)
  then show ?case by simp
next
  case (4 fuel L MaxMoves state depth m ms best)
  from "4.prems" have d: "0 \<le> depth - 1" "nat (depth - 1) < fuel" by auto
  from "4.IH"(1) [OF d] obtain v where
    v: "exhaustive fuel L MaxMoves (applyMove L state m) (depth - 1) False = Some v" by blast
  from "4.IH"(2) [OF v "4.prems"] v show ?case by simp
next
  case (5 fuel L MaxMoves state depth best)
  then show ?case by simp
next
  case (6 fuel L MaxMoves state depth m ms best)
  from "6.prems" have d: "0 \<le> depth - 1" "nat (depth - 1) < fuel" by auto
  from "6.IH"(1) [OF d] obtain v where
    v: "exhaustive fuel L MaxMoves (applyMove L state m) (depth - 1) True = Some v" by blast
  from "6.IH"(2) [OF v "6.prems"] v show ?case by simp
qed

text \<open>
  Under the full window the only scores that can differ from the exhaustive value are
  those that the root's strict comparison against its sentinel ignores: a node's running
  extreme starts at the sentinel, so a minimizing node never scores above \<open>32000\<close> and a
  maximizing node never below \<open>- 32000\<close>, and a base case is exact.
\<close>

lemma full_window_search:
  assumes "exhaustive fuel L MaxMoves state depth mp = Some v"
  shows "\<exists>r tr. search fuel L MaxMoves state depth (- 32000) 32000 mp = Some (r, tr) \<and>
           same_at_root (\<not> mp) r v"
proof -
  let ?e = "Minimax 0 :: 1 engine"
  have w: "(- 32000 :: int) < 32000" by simp
  from pruning_fail_soft(1) [OF assms w, of ?e] obtain r e' tr where
    m: "minimax fuel L MaxMoves ?e state depth (- 32000) 32000 mp = Some (r, e', tr)"
    and fs: "fail_soft (- 32000) 32000 v r" by blast
  obtain f where fuel: "fuel = Suc f" using assms by (cases fuel) auto
  have "same_at_root (\<not> mp) r v"
  proof (cases "depth = 0 \<or> isTerminal L state")
    case True
    with m assms fuel show ?thesis
      by (auto simp: Let_def same_at_root_def split: if_splits)
  next
    case False
    show ?thesis
    proof (cases mp)
      case True
      let ?e1 = "?e\<lparr>nodesSearched := nodesSearched ?e + 1\<rparr>"
      from True False assms fuel have
        x: "exhaustive_max f L MaxMoves state depth (generateMoves L state MaxMoves) (- 32000) = Some v"
        by simp
      from pruning_fail_soft(2) [OF x w, of ?e1] obtain r' e'' tr' where
        "max_loop f L MaxMoves ?e1 state depth (generateMoves L state MaxMoves) (- 32000) (- 32000) 32000 =
           Some (r', e'', tr')" "- 32000 \<le> r'" by blast
      with m True False fuel have "- 32000 \<le> r" by (simp add: Let_def)
      with exhaustive_max_ge [OF x] fs True show ?thesis
        by (auto simp: same_at_root_def fail_soft_def)
    next
      case mp: False
      let ?e1 = "?e\<lparr>nodesSearched := nodesSearched ?e + 1\<rparr>"
      from mp False assms fuel have
        x: "exhaustive_min f L MaxMoves state depth (generateMoves L state MaxMoves) 32000 = Some v"
        by simp
      from pruning_fail_soft(3) [OF x w, of ?e1] obtain r' e'' tr' where
        "min_loop f L MaxMoves ?e1 state depth (generateMoves L state MaxMoves) 32000 (- 32000) 32000 =
           Some (r', e'', tr')" "r' \<le> 32000" by blast
      with m mp False fuel have "r \<le> 32000" by (simp add: Let_def)
      with exhaustive_min_le [OF x] fs mp show ?thesis
        by (auto simp: same_at_root_def fail_soft_def)
    qed
  qed
  with m show ?thesis by (auto simp: search_def)
qed

lemma select_best_same_at_root:
  assumes "list_all2 (same_at_root isMax) rs vs"
    and "if isMax then - 32000 \<le> best else best \<le> 32000"
  shows "select_best isMax (zip ms rs) bestMove best = select_best isMax (zip ms vs) bestMove best"
  using assms
proof (induction rs vs arbitrary: ms bestMove best rule: list_all2_induct)
  case Nil
  then show ?case by simp
next
  case (Cons r rs v vs)
  show ?case
  proof (cases ms)
    case Nil
    then show ?thesis by simp
  next
    case (Cons m ms')
    show ?thesis
    proof (cases isMax)
      case True
      with Cons.hyps(1) Cons.prems have rv: "(r > best) = (v > best)" "r > best \<Longrightarrow> v = r"
        by (auto simp: same_at_root_def)
      from Cons.IH [of best ms' bestMove] Cons.IH [of r ms' m] True Cons.prems rv
      show ?thesis using Cons by auto
    next
      case False
      with Cons.hyps(1) Cons.prems have rv: "(r < best) = (v < best)" "r < best \<Longrightarrow> v = r"
        by (auto simp: same_at_root_def)
      from Cons.IH [of best ms' bestMove] Cons.IH [of r ms' m] False Cons.prems rv
      show ?thesis using Cons by auto
    qed
  qed
qed

lemma those_map_Some:
  "those (map f xs) = Some ys \<longleftrightarrow> list_all2 (\<lambda>x y. f x = Some y) xs ys"
proof (induction xs arbitrary: ys)
  case Nil
  then show ?case by auto
next
  case (Cons x xs)
  then show ?case
    by (cases ys) (auto split: option.splits)
qed

lemma those_map_returns:
  "\<forall>x\<in>set xs. \<exists>y. f x = Some y \<Longrightarrow> \<exists>ys. those (map f xs) = Some ys"
  by (induction xs) auto

lemma list_all2_through:
  "list_all2 (\<lambda>x z. \<exists>y. P x y \<and> Q y z) xs zs \<Longrightarrow>
     \<exists>ys. list_all2 P xs ys \<and> list_all2 Q ys zs"
proof (induction xs zs rule: list_all2_induct)
  case Nil
  then show ?case by simp
next
  case (Cons x xs z zs)
  then obtain y ys where "P x y" "Q y z" "list_all2 P xs ys" "list_all2 Q ys zs" by blast
  then have "list_all2 P (x # xs) (y # ys) \<and> list_all2 Q (y # ys) (z # zs)" by simp
  then show ?case by blast
qed

section \<open>Properties of the model over memory\<close>

lemma private_copies_append:
  "private_copies sp xs \<Longrightarrow> private_copies sp ys \<Longrightarrow> private_copies sp (xs @ ys)"
  by (induction sp xs rule: private_copies.induct) auto

lemma private_copies_mono:
  "private_copies (Suc sp) xs \<Longrightarrow> private_copies sp xs"
  by (induction sp xs rule: private_copies.induct) auto

lemma private_copies_step:
  "private_copies (Suc sp) acc \<Longrightarrow> private_copies sp acc2 \<Longrightarrow>
     private_copies sp ([Copy_into sp src, ApplyMove_at sp m] @ acc @ acc2)"
  by (simp add: private_copies_append private_copies_mono)

text \<open>
  A search leaves every object below \<open>sp\<close> as it was, and all its writes are private
  copies.
\<close>

lemma minimax_at_frame:
  fixes e :: "'w::len engine"
  shows "minimax_at fuel L MaxMoves e mem sp state depth alpha beta mp = Some (v, e', mem', acc) \<Longrightarrow>
           (\<forall>a < sp. mem' a = mem a) \<and> private_copies sp acc"
    and "max_loop_at fuel L MaxMoves e mem sp state depth ms maxEval alpha beta = Some (v, e', mem', acc) \<Longrightarrow>
           (\<forall>a < sp. mem' a = mem a) \<and> private_copies sp acc"
    and "min_loop_at fuel L MaxMoves e mem sp state depth ms minEval alpha beta = Some (v, e', mem', acc) \<Longrightarrow>
           (\<forall>a < sp. mem' a = mem a) \<and> private_copies sp acc"
proof (induction fuel L MaxMoves e mem sp state depth alpha beta mp
    and fuel L MaxMoves e mem sp state depth ms maxEval alpha beta
    and fuel L MaxMoves e mem sp state depth ms minEval alpha beta
    arbitrary: v e' mem' acc and v e' mem' acc and v e' mem' acc
    rule: minimax_at_max_loop_at_min_loop_at.induct)
  case (1 L MaxMoves e mem sp state depth alpha beta maximizingPlayer)
  then show ?case by simp
next
  case (2 fuel L MaxMoves e mem sp state depth alpha beta maximizingPlayer)
  show ?case
  proof (cases "depth = 0 \<or> isTerminal L (mem state)")
    case True
    with "2.prems" show ?thesis by (auto simp: Let_def)
  next
    case False
    show ?thesis
    proof (cases maximizingPlayer)
      case True
      with False "2.prems" have
        "max_loop_at fuel L MaxMoves (e\<lparr>nodesSearched := nodesSearched e + 1\<rparr>) mem sp state depth
           (generateMoves L (mem state) MaxMoves) (- 32000) alpha beta = Some (v, e', mem', acc)"
        by (simp add: Let_def)
      from "2.IH"(1) [OF refl False refl True this] show ?thesis .
    next
      case mp: False
      with False "2.prems" have
        "min_loop_at fuel L MaxMoves (e\<lparr>nodesSearched := nodesSearched e + 1\<rparr>) mem sp state depth
           (generateMoves L (mem state) MaxMoves) 32000 alpha beta = Some (v, e', mem', acc)"
        by (simp add: Let_def)
      from "2.IH"(2) [OF refl False refl mp this] show ?thesis .
    qed
  qed
next
  case (3 fuel L MaxMoves e mem sp state depth maxEval alpha beta)
  then show ?case by simp
next
  case (4 fuel L MaxMoves e mem sp state depth m ms maxEval alpha beta)
  let ?mem2 = "mem(sp := applyMove L (mem state) m)"
  from "4.prems" obtain ev e1 mem3 acc1 where
    c: "minimax_at fuel L MaxMoves e ?mem2 (Suc sp) sp (depth - 1) alpha beta False = Some (ev, e1, mem3, acc1)"
    by (auto simp: Let_def split: option.splits)
  have eq: "(mem(sp := mem state))(sp := applyMove L ((mem(sp := mem state)) sp) m) = ?mem2"
    by simp
  from "4.IH"(1) [OF refl refl refl refl, unfolded eq, OF c]
  have f1: "\<forall>a < Suc sp. mem3 a = ?mem2 a" and p1: "private_copies (Suc sp) acc1" by blast+
  then have f1': "\<forall>a < sp. mem3 a = mem a" by simp
  show ?case
  proof (cases "beta \<le> max alpha ev")
    case True
    with c "4.prems" f1' private_copies_step [OF p1, of "[]"] show ?thesis
      by (auto simp: Let_def)
  next
    case False
    with c "4.prems" obtain acc2 where
      l: "max_loop_at fuel L MaxMoves e1 mem3 sp state depth ms (max maxEval ev) (max alpha ev) beta =
            Some (v, e', mem', acc2)"
      and acc: "acc = [Copy_into sp state, ApplyMove_at sp m] @ acc1 @ acc2"
      by (auto simp: Let_def split: option.splits)
    from "4.IH"(2) [OF refl refl refl refl, unfolded eq, OF c refl refl refl refl refl False l]
    have "\<forall>a < sp. mem' a = mem3 a" "private_copies sp acc2" by blast+
    with f1' acc private_copies_step [OF p1] show ?thesis by simp
  qed
next
  case (5 fuel L MaxMoves e mem sp state depth minEval alpha beta)
  then show ?case by simp
next
  case (6 fuel L MaxMoves e mem sp state depth m ms minEval alpha beta)
  let ?mem2 = "mem(sp := applyMove L (mem state) m)"
  from "6.prems" obtain ev e1 mem3 acc1 where
    c: "minimax_at fuel L MaxMoves e ?mem2 (Suc sp) sp (depth - 1) alpha beta True = Some (ev, e1, mem3, acc1)"
    by (auto simp: Let_def split: option.splits)
  have eq: "(mem(sp := mem state))(sp := applyMove L ((mem(sp := mem state)) sp) m) = ?mem2"
    by simp
  from "6.IH"(1) [OF refl refl refl refl, unfolded eq, OF c]
  have f1: "\<forall>a < Suc sp. mem3 a = ?mem2 a" and p1: "private_copies (Suc sp) acc1" by blast+
  then have f1': "\<forall>a < sp. mem3 a = mem a" by simp
  show ?case
  proof (cases "min beta ev \<le> alpha")
    case True
    with c "6.prems" f1' private_copies_step [OF p1, of "[]"] show ?thesis
      by (auto simp: Let_def)
  next
    case False
    with c "6.prems" obtain acc2 where
      l: "min_loop_at fuel L MaxMoves e1 mem3 sp state depth ms (min minEval ev) alpha (min beta ev) =
            Some (v, e', mem', acc2)"
      and acc: "acc = [Copy_into sp state, ApplyMove_at sp m] @ acc1 @ acc2"
      by (auto simp: Let_def split: option.splits)
    from "6.IH"(2) [OF refl refl refl refl, unfolded eq, OF c refl refl refl refl refl False l]
    have "\<forall>a < sp. mem' a = mem3 a" "private_copies sp acc2" by blast+
    with f1' acc private_copies_step [OF p1] show ?thesis by simp
  qed
qed

text \<open>
  For a state object below \<open>sp\<close> the search over memory returns exactly when the search
  on the state's value returns, with the same score and the same engine.
\<close>

lemma minimax_at_value:
  fixes e :: "'w::len engine"
  shows "minimax_at fuel L MaxMoves e mem sp state depth alpha beta mp = Some (v, e', mem', acc) \<Longrightarrow>
           state < sp \<Longrightarrow>
           \<exists>tr. minimax fuel L MaxMoves e (mem state) depth alpha beta mp = Some (v, e', tr)"
    and "max_loop_at fuel L MaxMoves e mem sp state depth ms maxEval alpha beta = Some (v, e', mem', acc) \<Longrightarrow>
           state < sp \<Longrightarrow>
           \<exists>tr. max_loop fuel L MaxMoves e (mem state) depth ms maxEval alpha beta = Some (v, e', tr)"
    and "min_loop_at fuel L MaxMoves e mem sp state depth ms minEval alpha beta = Some (v, e', mem', acc) \<Longrightarrow>
           state < sp \<Longrightarrow>
           \<exists>tr. min_loop fuel L MaxMoves e (mem state) depth ms minEval alpha beta = Some (v, e', tr)"
proof (induction fuel L MaxMoves e mem sp state depth alpha beta mp
    and fuel L MaxMoves e mem sp state depth ms maxEval alpha beta
    and fuel L MaxMoves e mem sp state depth ms minEval alpha beta
    arbitrary: v e' mem' acc and v e' mem' acc and v e' mem' acc
    rule: minimax_at_max_loop_at_min_loop_at.induct)
  case (1 L MaxMoves e mem sp state depth alpha beta maximizingPlayer)
  then show ?case by simp
next
  case (2 fuel L MaxMoves e mem sp state depth alpha beta maximizingPlayer)
  show ?case
  proof (cases "depth = 0 \<or> isTerminal L (mem state)")
    case True
    with "2.prems" show ?thesis by (auto simp: Let_def)
  next
    case False
    show ?thesis
    proof (cases maximizingPlayer)
      case True
      with False "2.prems" have
        "max_loop_at fuel L MaxMoves (e\<lparr>nodesSearched := nodesSearched e + 1\<rparr>) mem sp state depth
           (generateMoves L (mem state) MaxMoves) (- 32000) alpha beta = Some (v, e', mem', acc)"
        by (simp add: Let_def)
      from "2.IH"(1) [OF refl False refl True this "2.prems"(2)] False True
      show ?thesis by (auto simp: Let_def)
    next
      case mp: False
      with False "2.prems" have
        "min_loop_at fuel L MaxMoves (e\<lparr>nodesSearched := nodesSearched e + 1\<rparr>) mem sp state depth
           (generateMoves L (mem state) MaxMoves) 32000 alpha beta = Some (v, e', mem', acc)"
        by (simp add: Let_def)
      from "2.IH"(2) [OF refl False refl mp this "2.prems"(2)] False mp
      show ?thesis by (auto simp: Let_def)
    qed
  qed
next
  case (3 fuel L MaxMoves e mem sp state depth maxEval alpha beta)
  then show ?case by simp
next
  case (4 fuel L MaxMoves e mem sp state depth m ms maxEval alpha beta)
  let ?mem2 = "mem(sp := applyMove L (mem state) m)"
  have eq: "(mem(sp := mem state))(sp := applyMove L ((mem(sp := mem state)) sp) m) = ?mem2"
    by simp
  from "4.prems" obtain ev e1 mem3 acc1 where
    c: "minimax_at fuel L MaxMoves e ?mem2 (Suc sp) sp (depth - 1) alpha beta False = Some (ev, e1, mem3, acc1)"
    by (auto simp: Let_def split: option.splits)
  from "4.IH"(1) [OF refl refl refl refl, unfolded eq, OF c] obtain tr1 where
    c': "minimax fuel L MaxMoves e (applyMove L (mem state) m) (depth - 1) alpha beta False = Some (ev, e1, tr1)"
    by auto
  from minimax_at_frame(1) [OF c] "4.prems"(2) have same: "mem3 state = mem state" by simp
  show ?case
  proof (cases "beta \<le> max alpha ev")
    case True
    with c c' "4.prems" show ?thesis by (auto simp: Let_def)
  next
    case False
    with c "4.prems" have
      l: "max_loop_at fuel L MaxMoves e1 mem3 sp state depth ms (max maxEval ev) (max alpha ev) beta =
            Some (v, e', mem', drop (2 + length acc1) acc)"
      by (auto simp: Let_def split: option.splits)
    from "4.IH"(2) [OF refl refl refl refl, unfolded eq, OF c refl refl refl refl refl False l "4.prems"(2)]
      same c' False
    show ?thesis by (auto simp: Let_def)
  qed
next
  case (5 fuel L MaxMoves e mem sp state depth minEval alpha beta)
  then show ?case by simp
next
  case (6 fuel L MaxMoves e mem sp state depth m ms minEval alpha beta)
  let ?mem2 = "mem(sp := applyMove L (mem state) m)"
  have eq: "(mem(sp := mem state))(sp := applyMove L ((mem(sp := mem state)) sp) m) = ?mem2"
    by simp
  from "6.prems" obtain ev e1 mem3 acc1 where
    c: "minimax_at fuel L MaxMoves e ?mem2 (Suc sp) sp (depth - 1) alpha beta True = Some (ev, e1, mem3, acc1)"
    by (auto simp: Let_def split: option.splits)
  from "6.IH"(1) [OF refl refl refl refl, unfolded eq, OF c] obtain tr1 where
    c': "minimax fuel L MaxMoves e (applyMove L (mem state) m) (depth - 1) alpha beta True = Some (ev, e1, tr1)"
    by auto
  from minimax_at_frame(1) [OF c] "6.prems"(2) have same: "mem3 state = mem state" by simp
  show ?case
  proof (cases "min beta ev \<le> alpha")
    case True
    with c c' "6.prems" show ?thesis by (auto simp: Let_def)
  next
    case False
    with c "6.prems" have
      l: "min_loop_at fuel L MaxMoves e1 mem3 sp state depth ms (min minEval ev) alpha (min beta ev) =
            Some (v, e', mem', drop (2 + length acc1) acc)"
      by (auto simp: Let_def split: option.splits)
    from "6.IH"(2) [OF refl refl refl refl, unfolded eq, OF c refl refl refl refl refl False l "6.prems"(2)]
      same c' False
    show ?thesis by (auto simp: Let_def)
  qed
qed

lemma minimax_at_returns:
  fixes e :: "'w::len engine"
  shows "minimax fuel L MaxMoves e (mem state) depth alpha beta mp = Some (v, e', tr) \<Longrightarrow>
           state < sp \<Longrightarrow>
           \<exists>mem' acc. minimax_at fuel L MaxMoves e mem sp state depth alpha beta mp = Some (v, e', mem', acc)"
    and "max_loop fuel L MaxMoves e (mem state) depth ms maxEval alpha beta = Some (v, e', tr) \<Longrightarrow>
           state < sp \<Longrightarrow>
           \<exists>mem' acc. max_loop_at fuel L MaxMoves e mem sp state depth ms maxEval alpha beta = Some (v, e', mem', acc)"
    and "min_loop fuel L MaxMoves e (mem state) depth ms minEval alpha beta = Some (v, e', tr) \<Longrightarrow>
           state < sp \<Longrightarrow>
           \<exists>mem' acc. min_loop_at fuel L MaxMoves e mem sp state depth ms minEval alpha beta = Some (v, e', mem', acc)"
proof (induction fuel L MaxMoves e mem sp state depth alpha beta mp
    and fuel L MaxMoves e mem sp state depth ms maxEval alpha beta
    and fuel L MaxMoves e mem sp state depth ms minEval alpha beta
    arbitrary: v e' tr and v e' tr and v e' tr
    rule: minimax_at_max_loop_at_min_loop_at.induct)
  case (1 L MaxMoves e mem sp state depth alpha beta maximizingPlayer)
  then show ?case by simp
next
  case (2 fuel L MaxMoves e mem sp state depth alpha beta maximizingPlayer)
  show ?case
  proof (cases "depth = 0 \<or> isTerminal L (mem state)")
    case True
    with "2.prems" show ?thesis by (auto simp: Let_def split: if_splits)
  next
    case False
    show ?thesis
    proof (cases maximizingPlayer)
      case True
      with False "2.prems" obtain tr1 where
        "max_loop fuel L MaxMoves (e\<lparr>nodesSearched := nodesSearched e + 1\<rparr>) (mem state) depth
           (generateMoves L (mem state) MaxMoves) (- 32000) alpha beta = Some (v, e', tr1)"
        by (auto simp: Let_def split: option.splits)
      from "2.IH"(1) [OF refl False refl True this "2.prems"(2)] False True
      show ?thesis by (auto simp: Let_def)
    next
      case mp: False
      with False "2.prems" obtain tr1 where
        "min_loop fuel L MaxMoves (e\<lparr>nodesSearched := nodesSearched e + 1\<rparr>) (mem state) depth
           (generateMoves L (mem state) MaxMoves) 32000 alpha beta = Some (v, e', tr1)"
        by (auto simp: Let_def split: option.splits)
      from "2.IH"(2) [OF refl False refl mp this "2.prems"(2)] False mp
      show ?thesis by (auto simp: Let_def)
    qed
  qed
next
  case (3 fuel L MaxMoves e mem sp state depth maxEval alpha beta)
  then show ?case by simp
next
  case (4 fuel L MaxMoves e mem sp state depth m ms maxEval alpha beta)
  let ?mem2 = "mem(sp := applyMove L (mem state) m)"
  have eq: "(mem(sp := mem state))(sp := applyMove L ((mem(sp := mem state)) sp) m) = ?mem2"
    by simp
  from "4.prems" obtain ev e1 tr1 where
    c': "minimax fuel L MaxMoves e (applyMove L (mem state) m) (depth - 1) alpha beta False = Some (ev, e1, tr1)"
    by (auto simp: Let_def split: option.splits)
  then have "minimax fuel L MaxMoves e (?mem2 sp) (depth - 1) alpha beta False = Some (ev, e1, tr1)"
    by simp
  from "4.IH"(1) [OF refl refl refl refl, unfolded eq, OF this] obtain mem3 acc1 where
    c: "minimax_at fuel L MaxMoves e ?mem2 (Suc sp) sp (depth - 1) alpha beta False = Some (ev, e1, mem3, acc1)"
    by blast
  from minimax_at_frame(1) [OF c] "4.prems"(2) have same: "mem3 state = mem state" by simp
  show ?case
  proof (cases "beta \<le> max alpha ev")
    case True
    with c c' "4.prems" show ?thesis by (auto simp: Let_def)
  next
    case False
    with c' "4.prems" obtain tr2 where
      "max_loop fuel L MaxMoves e1 (mem state) depth ms (max maxEval ev) (max alpha ev) beta =
            Some (v, e', tr2)"
      by (auto simp: Let_def split: option.splits)
    with same have l: "max_loop fuel L MaxMoves e1 (mem3 state) depth ms (max maxEval ev) (max alpha ev) beta =
            Some (v, e', tr2)" by simp
    from "4.IH"(2) [OF refl refl refl refl, unfolded eq, OF c refl refl refl refl refl False l "4.prems"(2)]
      c False
    show ?thesis by (auto simp: Let_def)
  qed
next
  case (5 fuel L MaxMoves e mem sp state depth minEval alpha beta)
  then show ?case by simp
next
  case (6 fuel L MaxMoves e mem sp state depth m ms minEval alpha beta)
  let ?mem2 = "mem(sp := applyMove L (mem state) m)"
  have eq: "(mem(sp := mem state))(sp := applyMove L ((mem(sp := mem state)) sp) m) = ?mem2"
    by simp
  from "6.prems" obtain ev e1 tr1 where
    c': "minimax fuel L MaxMoves e (applyMove L (mem state) m) (depth - 1) alpha beta True = Some (ev, e1, tr1)"
    by (auto simp: Let_def split: option.splits)
  then have "minimax fuel L MaxMoves e (?mem2 sp) (depth - 1) alpha beta True = Some (ev, e1, tr1)"
    by simp
  from "6.IH"(1) [OF refl refl refl refl, unfolded eq, OF this] obtain mem3 acc1 where
    c: "minimax_at fuel L MaxMoves e ?mem2 (Suc sp) sp (depth - 1) alpha beta True = Some (ev, e1, mem3, acc1)"
    by blast
  from minimax_at_frame(1) [OF c] "6.prems"(2) have same: "mem3 state = mem state" by simp
  show ?case
  proof (cases "min beta ev \<le> alpha")
    case True
    with c c' "6.prems" show ?thesis by (auto simp: Let_def)
  next
    case False
    with c' "6.prems" obtain tr2 where
      "min_loop fuel L MaxMoves e1 (mem state) depth ms (min minEval ev) alpha (min beta ev) =
            Some (v, e', tr2)"
      by (auto simp: Let_def split: option.splits)
    with same have l: "min_loop fuel L MaxMoves e1 (mem3 state) depth ms (min minEval ev) alpha (min beta ev) =
            Some (v, e', tr2)" by simp
    from "6.IH"(2) [OF refl refl refl refl, unfolded eq, OF c refl refl refl refl refl False l "6.prems"(2)]
      c False
    show ?thesis by (auto simp: Let_def)
  qed
qed

text \<open>
  The same three facts for the root loop.
\<close>

lemma root_loop_at_frame:
  fixes e :: "'w::len engine"
  shows "root_loop_at fuel L MaxMoves MaxDepth isMax mem sp state ms bestMove e = Some (mv, e', mem', acc) \<Longrightarrow>
           (\<forall>a < sp. mem' a = mem a) \<and> private_copies sp acc"
proof (induction ms arbitrary: mem bestMove e mv e' mem' acc)
  case Nil
  then show ?case by simp
next
  case (Cons m ms)
  let ?mem2 = "mem(sp := applyMove L (mem state) m)"
  from Cons.prems obtain score e1 mem3 acc1 where
    c: "minimax_at fuel L MaxMoves e ?mem2 (Suc sp) sp (MaxDepth - 1) (- 32000) 32000 (\<not> isMax) =
          Some (score, e1, mem3, acc1)"
    by (auto simp: Let_def split: option.splits)
  from minimax_at_frame(1) [OF c]
  have f1: "\<forall>a < sp. mem3 a = mem a" and p1: "private_copies (Suc sp) acc1" by simp_all
  define improves where "improves = (if isMax then score > bestScore e1 else score < bestScore e1)"
  from c Cons.prems obtain acc2 where
    r: "root_loop_at fuel L MaxMoves MaxDepth isMax mem3 sp state ms (if improves then m else bestMove)
          (if improves then e1\<lparr>bestScore := score\<rparr> else e1) = Some (mv, e', mem', acc2)"
    and acc: "acc = [Copy_into sp state, ApplyMove_at sp m] @ acc1 @ acc2"
    by (auto simp: Let_def improves_def split: option.splits)
  from Cons.IH [OF r] f1 acc private_copies_step [OF p1] show ?case by simp
qed

lemma root_loop_at_value:
  fixes e :: "'w::len engine"
  assumes "state < sp"
  shows "root_loop_at fuel L MaxMoves MaxDepth isMax mem sp state ms bestMove e = Some (mv, e', mem', acc) \<Longrightarrow>
           \<exists>tr. root_loop fuel L MaxMoves MaxDepth isMax (mem state) ms bestMove e = Some (mv, e', tr)"
proof (induction ms arbitrary: mem bestMove e mv e' mem' acc)
  case Nil
  then show ?case by simp
next
  case (Cons m ms)
  let ?mem2 = "mem(sp := applyMove L (mem state) m)"
  from Cons.prems obtain score e1 mem3 acc1 where
    c: "minimax_at fuel L MaxMoves e ?mem2 (Suc sp) sp (MaxDepth - 1) (- 32000) 32000 (\<not> isMax) =
          Some (score, e1, mem3, acc1)"
    by (auto simp: Let_def split: option.splits)
  from minimax_at_value(1) [OF c] obtain tr1 where
    c': "minimax fuel L MaxMoves e (applyMove L (mem state) m) (MaxDepth - 1) (- 32000) 32000 (\<not> isMax) =
          Some (score, e1, tr1)"
    by auto
  from minimax_at_frame(1) [OF c] assms have same: "mem3 state = mem state" by simp
  define improves where "improves = (if isMax then score > bestScore e1 else score < bestScore e1)"
  from c Cons.prems obtain acc2 where
    r: "root_loop_at fuel L MaxMoves MaxDepth isMax mem3 sp state ms (if improves then m else bestMove)
          (if improves then e1\<lparr>bestScore := score\<rparr> else e1) = Some (mv, e', mem', acc2)"
    by (auto simp: Let_def improves_def split: option.splits)
  from Cons.IH [OF r] same c' show ?case
    by (auto simp: Let_def improves_def)
qed

lemma root_loop_at_returns:
  fixes e :: "'w::len engine"
  assumes "state < sp"
  shows "root_loop fuel L MaxMoves MaxDepth isMax (mem state) ms bestMove e = Some (mv, e', tr) \<Longrightarrow>
           \<exists>mem' acc. root_loop_at fuel L MaxMoves MaxDepth isMax mem sp state ms bestMove e =
             Some (mv, e', mem', acc)"
proof (induction ms arbitrary: mem bestMove e mv e' tr)
  case Nil
  then show ?case by simp
next
  case (Cons m ms)
  let ?mem2 = "mem(sp := applyMove L (mem state) m)"
  from Cons.prems obtain score e1 tr1 where
    c': "minimax fuel L MaxMoves e (applyMove L (mem state) m) (MaxDepth - 1) (- 32000) 32000 (\<not> isMax) =
          Some (score, e1, tr1)"
    by (auto simp: Let_def split: option.splits)
  then have "minimax fuel L MaxMoves e (?mem2 sp) (MaxDepth - 1) (- 32000) 32000 (\<not> isMax) =
          Some (score, e1, tr1)" by simp
  from minimax_at_returns(1) [where mem = ?mem2 and state = sp and sp = "Suc sp", OF this]
  obtain mem3 acc1 where
    c: "minimax_at fuel L MaxMoves e ?mem2 (Suc sp) sp (MaxDepth - 1) (- 32000) 32000 (\<not> isMax) =
          Some (score, e1, mem3, acc1)"
    by auto
  from minimax_at_frame(1) [OF c] assms have same: "mem3 state = mem state" by simp
  define improves where "improves = (if isMax then score > bestScore e1 else score < bestScore e1)"
  from c' Cons.prems obtain tr2 where
    "root_loop fuel L MaxMoves MaxDepth isMax (mem state) ms (if improves then m else bestMove)
          (if improves then e1\<lparr>bestScore := score\<rparr> else e1) = Some (mv, e', tr2)"
    by (auto simp: Let_def improves_def split: option.splits)
  with same have "root_loop fuel L MaxMoves MaxDepth isMax (mem3 state) ms (if improves then m else bestMove)
          (if improves then e1\<lparr>bestScore := score\<rparr> else e1) = Some (mv, e', tr2)" by simp
  from Cons.IH [of mem3, OF this] c show ?case
    by (auto simp: Let_def improves_def)
qed

section \<open>The claims\<close>

text \<open>
  C1. For every capability, root state and depth bound, and every engine: whenever the
  exhaustive root call returns a move and a score, \<open>findBestMove\<close> returns the same
  move, and \<open>getBestScore\<close> reads the same score afterwards (without a root move neither
  computes a score and \<open>getBestScore\<close> reads what it read before). Both are run under
  the same nesting bound; for \<open>MaxDepth \<ge> 1\<close> the exhaustive root call returns as soon
  as \<open>MaxDepth\<close> frames may nest.
\<close>

theorem pruning_preserves_root_outcome:
  fixes e :: "'w::len engine"
  shows "(1 \<le> MaxDepth \<and> nat MaxDepth \<le> fuel \<longrightarrow>
            exhaustive_findBestMove fuel L MaxMoves MaxDepth default_Move state \<noteq> None) \<and>
         (\<forall>mv sc. exhaustive_findBestMove fuel L MaxMoves MaxDepth default_Move state = Some (mv, sc) \<longrightarrow>
            (\<exists>e' tr. findBestMove fuel L MaxMoves MaxDepth default_Move e state = Some (mv, e', tr) \<and>
               getBestScore e' = (case sc of None \<Rightarrow> getBestScore e | Some best \<Rightarrow> best)))"
proof (intro conjI impI allI)
  let ?isMax = "isMaximizingPlayer L state"
  let ?ms = "generateMoves L state MaxMoves"
  let ?ex = "\<lambda>m. exhaustive fuel L MaxMoves (applyMove L state m) (MaxDepth - 1) (\<not> ?isMax)"
  let ?b = "if ?isMax then - 32000 else (32000::int)"
  {
    assume "1 \<le> MaxDepth \<and> nat MaxDepth \<le> fuel"
    then have d: "0 \<le> MaxDepth - 1" "nat (MaxDepth - 1) < fuel" by auto
    have "\<forall>m\<in>set ?ms. \<exists>v. ?ex m = Some v"
      by (intro ballI) (rule exhaustive_returns(1) [OF d])
    from those_map_returns [OF this] obtain vs where "those (map ?ex ?ms) = Some vs" by blast
    then show "exhaustive_findBestMove fuel L MaxMoves MaxDepth default_Move state \<noteq> None"
      by (simp add: exhaustive_findBestMove_def Let_def split: prod.splits)
  }
  fix mv sc
  assume x: "exhaustive_findBestMove fuel L MaxMoves MaxDepth default_Move state = Some (mv, sc)"
  show "\<exists>e' tr. findBestMove fuel L MaxMoves MaxDepth default_Move e state = Some (mv, e', tr) \<and>
          getBestScore e' = (case sc of None \<Rightarrow> getBestScore e | Some best \<Rightarrow> best)"
  proof (cases "?ms = []")
    case True
    with x show ?thesis
      by (auto simp: exhaustive_findBestMove_def findBestMove_def)
  next
    case False
    with x obtain vs best where vs: "those (map ?ex ?ms) = Some vs"
      and sel: "select_best ?isMax (zip ?ms vs) default_Move ?b = (mv, best)"
      and sc: "sc = Some best"
      by (auto simp: exhaustive_findBestMove_def Let_def split: option.splits prod.splits)
    from vs have "list_all2 (\<lambda>m v. ?ex m = Some v) ?ms vs"
      by (simp add: those_map_Some)
    then have "list_all2 (\<lambda>m v. \<exists>r. root_child_score fuel L MaxMoves MaxDepth state m = Some r \<and>
        same_at_root ?isMax r v) ?ms vs"
    proof (rule list_all2_mono)
      fix m v
      assume "?ex m = Some v"
      from full_window_search [OF this]
      show "\<exists>r. root_child_score fuel L MaxMoves MaxDepth state m = Some r \<and> same_at_root ?isMax r v"
        by (auto simp: root_child_score_def)
    qed
    from list_all2_through [OF this] obtain rs where
      rs: "list_all2 (\<lambda>m r. root_child_score fuel L MaxMoves MaxDepth state m = Some r) ?ms rs"
      and same: "list_all2 (same_at_root ?isMax) rs vs"
      by blast
    have "if ?isMax then - 32000 \<le> ?b else ?b \<le> 32000" by simp
    from select_best_same_at_root [OF same this, of ?ms default_Move] sel
    have "select_best ?isMax (zip ?ms rs) default_Move ?b = (mv, best)" by simp
    with findBestMove_select [OF refl False rs, of default_Move e] sc
    show ?thesis by (auto simp: getBestScore_def)
  qed
qed

text \<open>
  In Nim on a heap of four both choose to take one stick, with score 10. In the tree game
  the second grandchild is cut off after its first leaf, and the leaves beyond \<open>32000\<close>
  are outside the sentinels; the outcome is the same.
\<close>

theorem pruning_preserves_root_outcome_witness:
  "(1::int) \<le> 5 \<and> nat 5 \<le> (5::nat) \<and>
   exhaustive_findBestMove 5 nim 64 5 0 (4, True) = Some (1, Some 10) \<and>
   (\<exists>e' tr. findBestMove 5 nim 64 5 0 (Minimax 0 :: 16 engine) (4, True) = Some (1, e', tr) \<and>
      getBestScore e' = 10) \<and>
   exhaustive_findBestMove 5 tree_game 64 5 (Leaf 0)
     (Node [Node [Node [Leaf 3, Leaf 5], Node [Leaf 32001, Leaf 32002]], Leaf 4], True) =
     Some (Node [Node [Leaf 3, Leaf 5], Node [Leaf 32001, Leaf 32002]], Some 5) \<and>
   (\<exists>e' tr. findBestMove 5 tree_game 64 5 (Leaf 0) (Minimax 0 :: 16 engine)
        (Node [Node [Node [Leaf 3, Leaf 5], Node [Leaf 32001, Leaf 32002]], Leaf 4], True) =
        Some (Node [Node [Leaf 3, Leaf 5], Node [Leaf 32001, Leaf 32002]], e', tr) \<and>
      getBestScore e' = 5)"
proof -
  let ?t = "(Node [Node [Node [Leaf 3, Leaf 5], Node [Leaf 32001, Leaf 32002]], Leaf 4], True)"
  have x: "exhaustive_findBestMove 5 nim 64 5 0 (4, True) = Some (1, Some 10)"
    by code_simp
  have y: "exhaustive_findBestMove 5 tree_game 64 5 (Leaf 0) ?t =
      Some (Node [Node [Leaf 3, Leaf 5], Node [Leaf 32001, Leaf 32002]], Some 5)"
    by code_simp
  from pruning_preserves_root_outcome [of 5 5 nim 64 0 "(4, True)" "Minimax 0 :: 16 engine"]
    pruning_preserves_root_outcome [of 5 5 tree_game 64 "Leaf 0" ?t "Minimax 0 :: 16 engine"] x y
  show ?thesis by simp
qed

text \<open>
  C2. The claim: for a state in which \<open>generateMoves\<close> returns no move at the root,
  \<open>findBestMove\<close> returns the default-constructed move and leaves the best score at its
  initial sentinel. The code returns the default-constructed move, but it returns on
  \<open>moveCount == 0\<close> before it assigns \<open>_bestScore\<close>, and the constructor does not
  initialise that member, so on this path no sentinel is written. In Nim, a first root
  call on a heap of one leaves the best score 10; a second root call on the empty heap,
  where the maximizing player has no move, returns the placeholder move, and
  \<open>getBestScore\<close> still reads 10, which is neither \<open>- 32000\<close> nor \<open>32000\<close>.
\<close>

theorem findBestMove_no_moves_stale_score:
  "map_option (\<lambda>(mv, e, tr). e) (findBestMove 5 nim 64 5 0 (Minimax 0 :: 16 engine) (1, True)) =
     Some \<lparr>bestScore = 10, nodesSearched = 1\<rparr> \<and>
   generateMoves nim (0, True) 64 = [] \<and>
   map_option (\<lambda>(mv, e, tr). (mv, getBestScore e))
     (findBestMove 5 nim 64 5 0 \<lparr>bestScore = 10, nodesSearched = 1 :: 16 word\<rparr> (0, True)) =
     Some (0, 10) \<and>
   (10::int) \<notin> {- 32000, 32000}"
  by code_simp

text \<open>
  What the root call does without a root move, for every capability and every engine: it
  returns the default-constructed move and leaves the engine as it was, so that
  \<open>getBestScore\<close> and \<open>getNodesSearched\<close> read what they read before the call. The
  only capability call made is the one to \<open>generateMoves\<close>.
\<close>

theorem findBestMove_no_moves:
  assumes "generateMoves L state MaxMoves = []"
  shows "findBestMove fuel L MaxMoves MaxDepth default_Move e state =
           Some (default_Move, e, [Call_generateMoves state])"
  using assms by (simp add: findBestMove_def)

theorem findBestMove_no_moves_witness:
  "generateMoves nim (0, True) 64 = [] \<and>
   findBestMove 5 nim 64 5 0 \<lparr>bestScore = 10, nodesSearched = 1 :: 16 word\<rparr> (0, True) =
     Some (0, \<lparr>bestScore = 10, nodesSearched = 1\<rparr>, [Call_generateMoves (0, True)])"
  using findBestMove_no_moves [of nim "(0, True)" 64 5 5 0
      "\<lparr>bestScore = 10, nodesSearched = 1 :: 16 word\<rparr>"]
  by (simp add: nim_def)

text \<open>
  C3. The claim: every root call resets the node counter at its start, and afterwards
  \<open>getNodesSearched\<close> equals the number of recursive search invocations made during
  that call, never more. The code resets the counter only after the return for a root
  without a move. In Nim, a root call on a heap of four makes 11 search invocations and
  leaves the counter at 11; the next root call, on the empty heap, makes none, and
  \<open>getNodesSearched\<close> still reads 11.
\<close>

theorem findBestMove_no_moves_stale_count:
  "map_option (\<lambda>(mv, e, tr). (e, invocations tr))
     (findBestMove 5 nim 64 5 0 (Minimax 0 :: 16 engine) (4, True)) =
     Some (\<lparr>bestScore = 10, nodesSearched = 11\<rparr>, 11) \<and>
   map_option (\<lambda>(mv, e, tr). (getNodesSearched e, invocations tr))
     (findBestMove 5 nim 64 5 0 \<lparr>bestScore = 10, nodesSearched = 11 :: 16 word\<rparr> (0, False)) =
     Some (11, 0)"
  by code_simp

text \<open>
  With at least one root move the counter is exact. The call returns as soon as
  \<open>MaxDepth \<ge> 1\<close> and \<open>MaxDepth\<close> frames may nest; whenever it returns, the counter
  holds the number of entries into the recursive search made during the call, whatever
  it held before, as a machine word; and \<open>getNodesSearched\<close> reads exactly that number
  as long as it is below \<open>2 ^ (w - 1)\<close> for the \<open>w\<close>-bit \<open>int\<close> of the counter.
\<close>

theorem findBestMove_counts_invocations:
  fixes e :: "'w::len engine"
  assumes "generateMoves L state MaxMoves \<noteq> []"
  shows "(1 \<le> MaxDepth \<and> nat MaxDepth \<le> fuel \<longrightarrow>
            findBestMove fuel L MaxMoves MaxDepth default_Move e state \<noteq> None) \<and>
         (\<forall>mv e' tr. findBestMove fuel L MaxMoves MaxDepth default_Move e state = Some (mv, e', tr) \<longrightarrow>
            nodesSearched e' = of_nat (invocations tr) \<and>
            (invocations tr < 2 ^ (LENGTH('w) - 1) \<longrightarrow> getNodesSearched e' = int (invocations tr)))"
proof (intro conjI impI allI)
  let ?isMax = "isMaximizingPlayer L state"
  let ?e1 = "e\<lparr>bestScore := (if ?isMax then - 32000 else 32000), nodesSearched := 0\<rparr>"
  {
    assume "1 \<le> MaxDepth \<and> nat MaxDepth \<le> fuel"
    then have d: "1 \<le> MaxDepth" "nat MaxDepth \<le> fuel" by simp_all
    from root_loop_returns [OF d, of L MaxMoves ?isMax state "generateMoves L state MaxMoves" default_Move ?e1]
    show "findBestMove fuel L MaxMoves MaxDepth default_Move e state \<noteq> None"
      using assms by (auto simp: findBestMove_def Let_def)
  }
  fix mv e' tr
  assume f: "findBestMove fuel L MaxMoves MaxDepth default_Move e state = Some (mv, e', tr)"
  with assms obtain tr1 where
    r: "root_loop fuel L MaxMoves MaxDepth ?isMax state (generateMoves L state MaxMoves) default_Move ?e1 =
          Some (mv, e', tr1)"
    and tr: "tr = [Call_generateMoves state, Call_isMaximizingPlayer state] @ tr1"
    by (auto simp: findBestMove_def Let_def split: option.splits)
  from root_loop_counter [OF r] tr
  show n: "nodesSearched e' = of_nat (invocations tr)" by simp
  {
    assume "invocations tr < 2 ^ (LENGTH('w) - 1)"
    from sint_of_nat_small [OF this] n
    show "getNodesSearched e' = int (invocations tr)"
      by (simp add: getNodesSearched_def)
  }
qed

theorem findBestMove_counts_invocations_witness:
  "generateMoves nim (4, True) 64 \<noteq> [] \<and>
   map_option (\<lambda>(mv, e, tr). (getNodesSearched e, invocations tr))
     (findBestMove 5 nim 64 5 0 \<lparr>bestScore = 3, nodesSearched = 77 :: 16 word\<rparr> (4, True)) =
     Some (11, 11)"
proof -
  have g: "generateMoves nim (4, True) 64 \<noteq> []" by (simp add: nim_def)
  have d: "(1::int) \<le> 5 \<and> nat 5 \<le> 5" by simp
  let ?e = "\<lparr>bestScore = 3, nodesSearched = 77 :: 16 word\<rparr>"
  from findBestMove_counts_invocations [OF g, of 5 5 0 ?e] d
  obtain mv e' tr where f: "findBestMove 5 nim 64 5 0 ?e (4, True) = Some (mv, e', tr)"
    by (metis not_None_eq prod_cases3)
  have i: "map_option (\<lambda>(mv, e, tr). invocations tr) (findBestMove 5 nim 64 5 0 ?e (4, True)) = Some 11"
    by code_simp
  with f have i': "invocations tr = 11" by simp
  with findBestMove_counts_invocations [OF g, of 5 5 0 ?e] f
  have "getNodesSearched e' = 11" by simp
  with f i' g show ?thesis by simp
qed

text \<open>
  C4, as stated, fails when the tie is at the initial sentinel. In the tree game the
  maximizing player has the two moves \<open>Leaf (- 32000)\<close> and \<open>Node [Leaf (- 32000)]\<close>;
  both lead to the score \<open>- 32000\<close>, which is the best score, and \<open>findBestMove\<close>
  returns neither the earlier one nor the later one but the placeholder \<open>Leaf 0\<close>.
\<close>

theorem findBestMove_tie_at_sentinel:
  "generateMoves tree_game (Node [Leaf (- 32000), Node [Leaf (- 32000)]], True) 64 =
     [Leaf (- 32000), Node [Leaf (- 32000)]] \<and>
   root_child_score 5 tree_game 64 5 (Node [Leaf (- 32000), Node [Leaf (- 32000)]], True)
     (Leaf (- 32000)) = Some (- 32000) \<and>
   root_child_score 5 tree_game 64 5 (Node [Leaf (- 32000), Node [Leaf (- 32000)]], True)
     (Node [Leaf (- 32000)]) = Some (- 32000) \<and>
   map_option fst (findBestMove 5 tree_game 64 5 (Leaf 0) (Minimax 0 :: 16 engine)
     (Node [Leaf (- 32000), Node [Leaf (- 32000)]], True)) = Some (Leaf 0) \<and>
   Leaf 0 \<noteq> Leaf (- 32000)"
  by code_simp

text \<open>
  C4, amended. For every root state with at least one move for which every root move's
  search returns and some score is strictly better than the initial sentinel
  (\<open>> - 32000\<close> when maximizing, \<open>< 32000\<close> when minimizing), \<open>findBestMove\<close> returns
  the move at the first position, in generation order, that carries the best score: no
  score is better than its score, every earlier score is strictly worse, and
  \<open>getBestScore\<close> reads its score.
\<close>

theorem findBestMove_earliest_of_best:
  fixes e :: "'w::len engine"
  assumes "generateMoves L state MaxMoves = ms" and "ms \<noteq> []"
    and "list_all2 (\<lambda>m v. root_child_score fuel L MaxMoves MaxDepth state m = Some v) ms scores"
    and "\<exists>v\<in>set scores. if isMaximizingPlayer L state then - 32000 < v else v < 32000"
  shows "\<exists>i e' tr. i < length ms \<and>
           findBestMove fuel L MaxMoves MaxDepth default_Move e state = Some (ms ! i, e', tr) \<and>
           getBestScore e' = scores ! i \<and>
           (\<forall>j<length ms. if isMaximizingPlayer L state then scores ! j \<le> scores ! i
                           else scores ! i \<le> scores ! j) \<and>
           (\<forall>j<i. if isMaximizingPlayer L state then scores ! j < scores ! i
                  else scores ! i < scores ! j)"
proof -
  let ?isMax = "isMaximizingPlayer L state"
  let ?b = "if ?isMax then - 32000 else (32000::int)"
  from assms(3) have len: "length ms = length scores" by (rule list_all2_lengthD)
  obtain rm rv where sel: "select_best ?isMax (zip ms scores) default_Move ?b = (rm, rv)"
    by (cases "select_best ?isMax (zip ms scores) default_Move ?b")
  from assms(4) obtain k where k: "k < length scores"
    "if ?isMax then - 32000 < scores ! k else scores ! k < 32000"
    by (auto simp: in_set_conv_nth)
  then have "k < length (zip ms scores)" using len by simp
  then have "zip ms scores ! k \<in> set (zip ms scores)" by (rule nth_mem)
  moreover have "snd (zip ms scores ! k) = scores ! k"
    using k(1) len by simp
  ultimately have "zip ms scores ! k \<in> set (zip ms scores)" "snd (zip ms scores ! k) = scores ! k"
    by blast+
  with k(2) have "\<exists>x\<in>set (zip ms scores). if ?isMax then snd x > ?b else snd x < ?b"
    by (cases ?isMax) force+
  from select_best_first [OF sel this] len obtain i where i: "i < length ms"
    "rm = ms ! i" "rv = scores ! i"
    "\<forall>j<length ms. if ?isMax then scores ! j \<le> rv else rv \<le> scores ! j"
    "\<forall>j<i. if ?isMax then scores ! j < rv else rv < scores ! j"
    by (cases ?isMax) fastforce+
  from findBestMove_select [OF assms(1-3), of default_Move e] sel i
  show ?thesis by (auto simp: getBestScore_def)
qed

text \<open>
  In Nim on a heap of three both moves of the maximizing player score \<open>- 10\<close>, and the
  first one, taking one stick, is returned.
\<close>

theorem findBestMove_earliest_of_best_witness:
  "generateMoves nim (3, True) 64 = [1, 2] \<and>
   root_child_score 5 nim 64 5 (3, True) 1 = Some (- 10) \<and>
   root_child_score 5 nim 64 5 (3, True) 2 = Some (- 10) \<and>
   isMaximizingPlayer nim (3, True) \<and>
   (\<exists>e' tr. findBestMove 5 nim 64 5 0 (Minimax 0 :: 16 engine) (3, True) = Some (1, e', tr) \<and>
      getBestScore e' = - 10)"
proof -
  have g: "generateMoves nim (3, True) 64 = [1, 2]" and ne: "[1, 2 :: nat] \<noteq> []"
    and mx: "isMaximizingPlayer nim (3, True)"
    by (simp_all add: nim_def)
  have c: "root_child_score 5 nim 64 5 (3, True) 1 = Some (- 10)"
    "root_child_score 5 nim 64 5 (3, True) 2 = Some (- 10)"
    by code_simp+
  then have sc: "list_all2 (\<lambda>m v. root_child_score 5 nim 64 5 (3, True) m = Some v) [1, 2] [- 10, - 10]"
    by simp
  have ex: "\<exists>v\<in>set [- 10, - 10 :: int]. if isMaximizingPlayer nim (3, True) then - 32000 < v else v < 32000"
    using mx by simp
  from findBestMove_earliest_of_best [OF g ne sc ex, of 0 "Minimax 0 :: 16 engine"]
  obtain i e' tr where i: "i < length [1, 2 :: nat]"
    "findBestMove 5 nim 64 5 0 (Minimax 0 :: 16 engine) (3, True) = Some ([1, 2] ! i, e', tr)"
    "getBestScore e' = [- 10, - 10] ! i"
    "\<forall>j<i. if isMaximizingPlayer nim (3, True) then [- 10, - 10 :: int] ! j < [- 10, - 10] ! i
        else [- 10, - 10 :: int] ! i < [- 10, - 10] ! j"
    by blast
  have "i = 0"
  proof (rule ccontr)
    assume "i \<noteq> 0"
    with i(1) have i1: "i = 1" by simp
    from i(4) mx have "\<forall>j<i. [- 10, - 10 :: int] ! j < [- 10, - 10] ! i"
      by (simp only: if_True)
    with i1 have "[- 10, - 10 :: int] ! 0 < [- 10, - 10] ! 1" by (metis zero_less_one)
    then show False by simp
  qed
  with i g c mx show ?thesis by simp
qed

text \<open>
  C5. When the window closes after a child's score (\<open>beta \<le> alpha\<close> with the updated
  bound), the loop returns at once: whatever moves \<open>rest\<close> remain, the result, the
  engine and the event record are those of the iteration that cut off. The record ends
  with the events of that child's search, so it holds no copy, no \<open>applyMove\<close> and no
  search entry for a remaining move. The loops take the moves not yet examined and the
  current running values, so this covers a cutoff at any iteration of any node.
\<close>

theorem cutoff_skips_remaining_moves:
  "(minimax fuel L MaxMoves e (applyMove L state m) (depth - 1) alpha beta False = Some (eval, e1, tr) \<and>
      beta \<le> max alpha eval \<longrightarrow>
    max_loop fuel L MaxMoves e state depth (m # rest) maxEval alpha beta =
      Some (max maxEval eval, e1, [Copy_state state, Call_applyMove state m] @ tr)) \<and>
   (minimax fuel L MaxMoves e (applyMove L state m) (depth - 1) alpha beta True = Some (eval, e1, tr) \<and>
      min beta eval \<le> alpha \<longrightarrow>
    min_loop fuel L MaxMoves e state depth (m # rest) minEval alpha beta =
      Some (min minEval eval, e1, [Copy_state state, Call_applyMove state m] @ tr))"
  by (simp add: Let_def)

text \<open>
  In the tree game: at a maximizing node with window \<open>(- 32000, 5)\<close> the first child
  scores 7 and the second child \<open>Leaf 9\<close> is never looked at; at a minimizing node with
  window \<open>(3, 32000)\<close> the first child scores 2 and the second is never looked at.
\<close>

theorem cutoff_skips_remaining_moves_witness:
  "minimax 1 tree_game 64 (Minimax 0 :: 16 engine) (Leaf 7, False) 1 (- 32000) 5 False =
     Some (7, \<lparr>bestScore = 0, nodesSearched = 1\<rparr>,
           [Enter_minimax (Leaf 7, False) 1 (- 32000) 5 False, Call_isTerminal (Leaf 7, False),
            Call_evaluate (Leaf 7, False)]) \<and>
   (5::int) \<le> max (- 32000) 7 \<and>
   max_loop 1 tree_game 64 (Minimax 0 :: 16 engine) (Node [Leaf 7, Leaf 9], True) 2
       [Leaf 7, Leaf 9] (- 32000) (- 32000) 5 =
     Some (7, \<lparr>bestScore = 0, nodesSearched = 1\<rparr>,
           [Copy_state (Node [Leaf 7, Leaf 9], True),
            Call_applyMove (Node [Leaf 7, Leaf 9], True) (Leaf 7),
            Enter_minimax (Leaf 7, False) 1 (- 32000) 5 False, Call_isTerminal (Leaf 7, False),
            Call_evaluate (Leaf 7, False)]) \<and>
   minimax 1 tree_game 64 (Minimax 0 :: 16 engine) (Leaf 2, True) 1 3 32000 True =
     Some (2, \<lparr>bestScore = 0, nodesSearched = 1\<rparr>,
           [Enter_minimax (Leaf 2, True) 1 3 32000 True, Call_isTerminal (Leaf 2, True),
            Call_evaluate (Leaf 2, True)]) \<and>
   min 32000 2 \<le> (3::int) \<and>
   min_loop 1 tree_game 64 (Minimax 0 :: 16 engine) (Node [Leaf 2, Leaf 9], False) 2
       [Leaf 2, Leaf 9] 32000 3 32000 =
     Some (2, \<lparr>bestScore = 0, nodesSearched = 1\<rparr>,
           [Copy_state (Node [Leaf 2, Leaf 9], False),
            Call_applyMove (Node [Leaf 2, Leaf 9], False) (Leaf 2),
            Enter_minimax (Leaf 2, True) 1 3 32000 True, Call_isTerminal (Leaf 2, True),
            Call_evaluate (Leaf 2, True)])"
proof -
  let ?e = "Minimax 0 :: 16 engine"
  let ?e1 = "\<lparr>bestScore = 0, nodesSearched = 1 :: 16 word\<rparr>"
  let ?trmax = "[Enter_minimax (Leaf 7, False) 1 (- 32000) 5 False, Call_isTerminal (Leaf 7, False),
            Call_evaluate (Leaf 7, False)]"
  let ?trmin = "[Enter_minimax (Leaf 2, True) 1 3 32000 True, Call_isTerminal (Leaf 2, True),
            Call_evaluate (Leaf 2, True)]"
  have a: "applyMove tree_game (Node [Leaf 7, Leaf 9], True) (Leaf 7) = (Leaf 7, False)"
    "applyMove tree_game (Node [Leaf 2, Leaf 9], False) (Leaf 2) = (Leaf 2, True)"
    by (simp_all add: tree_game_def)
  have c1: "minimax 1 tree_game 64 ?e (Leaf 7, False) 1 (- 32000) 5 False = Some (7, ?e1, ?trmax)"
    and c2: "minimax 1 tree_game 64 ?e (Leaf 2, True) 1 3 32000 True = Some (2, ?e1, ?trmin)"
    by (simp_all add: tree_game_def Minimax_def)
  from cutoff_skips_remaining_moves [of 1 tree_game 64 ?e "(Node [Leaf 7, Leaf 9], True)" "Leaf 7"
      2 "- 32000" 5 7 ?e1 ?trmax "[Leaf 9]" "- 32000" 0]
    cutoff_skips_remaining_moves [of 1 tree_game 64 ?e "(Node [Leaf 2, Leaf 9], False)" "Leaf 2"
      2 3 32000 2 ?e1 ?trmin "[Leaf 9]" 0 32000]
    a c1 c2
  show ?thesis by simp
qed

text \<open>
  C6. A search invocation with \<open>depth = 0\<close>, or on a state for which \<open>isTerminal\<close>
  holds, returns \<open>evaluate state\<close> itself, whatever the window and whoever is to move.
  It counts one node, asks \<open>isTerminal\<close> only when \<open>depth \<noteq> 0\<close>, and neither
  generates nor applies a move. Any nesting bound of at least one frame is enough.
\<close>

theorem minimax_base_case:
  assumes "depth = 0 \<or> isTerminal L state"
  shows "minimax (Suc fuel) L MaxMoves e state depth alpha beta maximizingPlayer =
           Some (evaluate L state, e\<lparr>nodesSearched := nodesSearched e + 1\<rparr>,
                 Enter_minimax state depth alpha beta maximizingPlayer #
                 (if depth = 0 then [] else [Call_isTerminal state]) @ [Call_evaluate state])"
  using assms by (auto simp: Let_def)

text \<open>
  In Nim: a heap of three at depth 0 is scored as it stands, and an empty heap at depth 4
  is terminal.
\<close>

theorem minimax_base_case_witness:
  "((0::int) = 0 \<or> isTerminal nim (3, True)) \<and>
   minimax (Suc 0) nim 64 (Minimax 0 :: 16 engine) (3, True) 0 (- 5) 7 True =
     Some (0, \<lparr>bestScore = 0, nodesSearched = 1\<rparr>,
           [Enter_minimax (3, True) 0 (- 5) 7 True, Call_evaluate (3, True)]) \<and>
   minimax (Suc 0) nim 64 (Minimax 0 :: 16 engine) (0, False) 4 (- 5) 7 False =
     Some (10, \<lparr>bestScore = 0, nodesSearched = 1\<rparr>,
           [Enter_minimax (0, False) 4 (- 5) 7 False, Call_isTerminal (0, False),
            Call_evaluate (0, False)])"
  using minimax_base_case [of 0 nim "(3, True)" 0 64 "Minimax 0 :: 16 engine" "- 5" 7 True]
    minimax_base_case [of 4 nim "(0, False)" 0 64 "Minimax 0 :: 16 engine" "- 5" 7 False]
  by (simp add: nim_def Minimax_def)

text \<open>
  C7. A search invocation with \<open>depth \<noteq> 0\<close> (in particular \<open>depth > 0\<close>) on a state
  that is not terminal and for which \<open>generateMoves\<close> returns no move returns the initial
  value of the running extreme, \<open>- 32000\<close> at a maximizing node and \<open>32000\<close> at a
  minimizing node. The event record shows the calls made: \<open>isTerminal\<close> and
  \<open>generateMoves\<close>, and no \<open>evaluate\<close>.
\<close>

theorem minimax_no_moves_sentinel:
  assumes "depth \<noteq> 0" and "\<not> isTerminal L state" and "generateMoves L state MaxMoves = []"
  shows "minimax (Suc fuel) L MaxMoves e state depth alpha beta maximizingPlayer =
           Some (if maximizingPlayer then - 32000 else 32000,
                 e\<lparr>nodesSearched := nodesSearched e + 1\<rparr>,
                 [Enter_minimax state depth alpha beta maximizingPlayer,
                  Call_isTerminal state, Call_generateMoves state])"
  using assms by (simp add: Let_def)

text \<open>
  The tree game at \<open>Node []\<close>, maximizing and minimizing.
\<close>

theorem minimax_no_moves_sentinel_witness:
  "(3::int) \<noteq> 0 \<and> \<not> isTerminal tree_game (Node [], True) \<and>
   generateMoves tree_game (Node [], True) 64 = [] \<and>
   minimax (Suc 0) tree_game 64 (Minimax 0 :: 16 engine) (Node [], True) 3 (- 32000) 32000 True =
     Some (- 32000, \<lparr>bestScore = 0, nodesSearched = 1\<rparr>,
           [Enter_minimax (Node [], True) 3 (- 32000) 32000 True,
            Call_isTerminal (Node [], True), Call_generateMoves (Node [], True)]) \<and>
   minimax (Suc 0) tree_game 64 (Minimax 0 :: 16 engine) (Node [], False) 3 (- 32000) 32000 False =
     Some (32000, \<lparr>bestScore = 0, nodesSearched = 1\<rparr>,
           [Enter_minimax (Node [], False) 3 (- 32000) 32000 False,
            Call_isTerminal (Node [], False), Call_generateMoves (Node [], False)])"
  using minimax_no_moves_sentinel [of 3 tree_game "(Node [], True)" 64 0 "Minimax 0 :: 16 engine"
      "- 32000" 32000 True]
    minimax_no_moves_sentinel [of 3 tree_game "(Node [], False)" 64 0 "Minimax 0 :: 16 engine"
      "- 32000" 32000 False]
  by (simp add: tree_game_def Minimax_def)

text \<open>
  C8, as stated, fails for a depth bound below 1. With \<open>MaxDepth = 0\<close> the root calls
  the search at depth \<open>- 1\<close>, \<open>depth == 0\<close> is never met, and the search descends until
  the game ends: in Nim on a heap of two it does not fit into 0 frames, nor into 1, and
  with 2 frames it returns after entering \<open>minimax\<close> at depths \<open>- 1\<close> and \<open>- 2\<close>.
\<close>

theorem findBestMove_MaxDepth_zero_nests:
  "findBestMove (nat 0) nim 64 0 0 (Minimax 0 :: 16 engine) (2, True) = None \<and>
   findBestMove 1 nim 64 0 0 (Minimax 0 :: 16 engine) (2, True) = None \<and>
   map_option (\<lambda>(mv, e, tr). filter is_Enter tr)
     (findBestMove 2 nim 64 0 0 (Minimax 0 :: 16 engine) (2, True)) =
     Some [Enter_minimax (1, False) (- 1) (- 32000) 32000 False,
           Enter_minimax (0, True) (- 2) (- 32000) 32000 True,
           Enter_minimax (0, False) (- 1) (- 32000) 32000 False]"
  by code_simp

text \<open>
  C8, amended. For every capability, root state and depth bound \<open>MaxDepth \<ge> 1\<close>, a
  \<open>findBestMove\<close> call returns without nesting more than \<open>MaxDepth\<close> frames of the
  recursive search, and every entry into the search has a depth in \<open>0 .. MaxDepth - 1\<close>:
  the root enters the search at depth \<open>MaxDepth - 1\<close> with the full window and the
  flipped flag for every root move; an iteration of either loop at depth \<open>d\<close> copies the
  state, applies the move and enters the search at depth \<open>d - 1\<close> with the same window
  and the other player to move; and at depth 0 the search returns \<open>evaluate state\<close>
  whenever one frame may nest.
\<close>

theorem findBestMove_returns_within_MaxDepth:
  fixes e :: "'w::len engine"
  assumes "1 \<le> MaxDepth" and "nat MaxDepth \<le> fuel"
  shows "(\<exists>mv e' tr. findBestMove fuel L MaxMoves MaxDepth default_Move e state = Some (mv, e', tr) \<and>
           list_all (enter_depth_ok (MaxDepth - 1)) tr \<and>
           (\<forall>m\<in>set (generateMoves L state MaxMoves).
              Enter_minimax (applyMove L state m) (MaxDepth - 1) (- 32000) 32000
                (\<not> isMaximizingPlayer L state) \<in> set tr)) \<and>
         (\<forall>f (e0 :: 'w engine) s d a b m ms best r e1 t.
            (max_loop f L MaxMoves e0 s d (m # ms) best a b = Some (r, e1, t) \<longrightarrow>
               take 3 t = [Copy_state s, Call_applyMove s m,
                           Enter_minimax (applyMove L s m) (d - 1) a b False]) \<and>
            (min_loop f L MaxMoves e0 s d (m # ms) best a b = Some (r, e1, t) \<longrightarrow>
               take 3 t = [Copy_state s, Call_applyMove s m,
                           Enter_minimax (applyMove L s m) (d - 1) a b True])) \<and>
         (\<forall>f (e0 :: 'w engine) s a b mp.
            \<exists>e1 t. minimax (Suc f) L MaxMoves e0 s 0 a b mp = Some (evaluate L s, e1, t))"
proof (intro conjI)
  show "\<exists>mv e' tr. findBestMove fuel L MaxMoves MaxDepth default_Move e state = Some (mv, e', tr) \<and>
           list_all (enter_depth_ok (MaxDepth - 1)) tr \<and>
           (\<forall>m\<in>set (generateMoves L state MaxMoves).
              Enter_minimax (applyMove L state m) (MaxDepth - 1) (- 32000) 32000
                (\<not> isMaximizingPlayer L state) \<in> set tr)"
  proof (cases "generateMoves L state MaxMoves = []")
    case True
    then show ?thesis by (simp add: findBestMove_def)
  next
    case False
    let ?isMax = "isMaximizingPlayer L state"
    let ?e1 = "e\<lparr>bestScore := (if ?isMax then - 32000 else 32000), nodesSearched := 0\<rparr>"
    from root_loop_returns [OF assms, of L MaxMoves ?isMax state "generateMoves L state MaxMoves" default_Move ?e1]
    obtain mv e' tr where
      r: "root_loop fuel L MaxMoves MaxDepth ?isMax state (generateMoves L state MaxMoves) default_Move ?e1 =
            Some (mv, e', tr)"
      by (metis prod_cases3)
    from root_loop_depths [OF assms(1) r] root_loop_enters [OF r] r False
    show ?thesis by (simp add: findBestMove_def Let_def)
  qed
  show "\<forall>f (e0 :: 'w engine) s d a b m ms best r e1 t.
            (max_loop f L MaxMoves e0 s d (m # ms) best a b = Some (r, e1, t) \<longrightarrow>
               take 3 t = [Copy_state s, Call_applyMove s m,
                           Enter_minimax (applyMove L s m) (d - 1) a b False]) \<and>
            (min_loop f L MaxMoves e0 s d (m # ms) best a b = Some (r, e1, t) \<longrightarrow>
               take 3 t = [Copy_state s, Call_applyMove s m,
                           Enter_minimax (applyMove L s m) (d - 1) a b True])"
    by (intro allI conjI impI) (erule loop_first_events)+
  show "\<forall>f (e0 :: 'w engine) s a b mp.
            \<exists>e1 t. minimax (Suc f) L MaxMoves e0 s 0 a b mp = Some (evaluate L s, e1, t)"
    by (simp add: Let_def)
qed

theorem findBestMove_returns_within_MaxDepth_witness:
  "(1::int) \<le> 5 \<and> nat 5 \<le> (5::nat) \<and>
   (\<exists>mv e' tr. findBestMove 5 nim 64 5 0 (Minimax 0 :: 16 engine) (4, True) = Some (mv, e', tr) \<and>
      list_all (enter_depth_ok 4) tr \<and>
      Enter_minimax (3, False) 4 (- 32000) 32000 False \<in> set tr \<and>
      Enter_minimax (2, False) 4 (- 32000) 32000 False \<in> set tr)"
  using findBestMove_returns_within_MaxDepth [of 5 5 nim 64 0 "Minimax 0 :: 16 engine" "(4, True)"]
  by (simp add: nim_def)

text \<open>
  C9. Let the caller's state object lie below the first free stack slot, as every object
  does that exists before the call. When the root call returns, that object holds the
  state it held before, as does every other object below \<open>sp\<close>; every \<^verbatim>\<open>applyMove\<close> of
  the call was made on an object at or above \<open>sp\<close> that had been copy-constructed
  immediately before; and the move and the engine are those of the root call on the
  state's value. For \<open>MaxDepth \<ge> 1\<close> the call returns as soon as \<open>MaxDepth\<close> frames may
  nest.
\<close>

theorem caller_state_unchanged:
  fixes e :: "'w::len engine"
  assumes "state < sp"
  shows "(1 \<le> MaxDepth \<and> nat MaxDepth \<le> fuel \<longrightarrow>
            findBestMove_at fuel L MaxMoves MaxDepth default_Move e mem sp state \<noteq> None) \<and>
         (\<forall>mv e' mem' acc.
            findBestMove_at fuel L MaxMoves MaxDepth default_Move e mem sp state = Some (mv, e', mem', acc) \<longrightarrow>
              mem' state = mem state \<and> (\<forall>a < sp. mem' a = mem a) \<and> private_copies sp acc \<and>
              (\<exists>tr. findBestMove fuel L MaxMoves MaxDepth default_Move e (mem state) = Some (mv, e', tr)))"
proof (rule conjI)
  let ?isMax = "isMaximizingPlayer L (mem state)"
  let ?ms = "generateMoves L (mem state) MaxMoves"
  let ?e1 = "e\<lparr>bestScore := (if ?isMax then - 32000 else 32000), nodesSearched := 0\<rparr>"
  show "1 \<le> MaxDepth \<and> nat MaxDepth \<le> fuel \<longrightarrow>
          findBestMove_at fuel L MaxMoves MaxDepth default_Move e mem sp state \<noteq> None"
  proof (rule impI)
    assume "1 \<le> MaxDepth \<and> nat MaxDepth \<le> fuel"
    then have d: "1 \<le> MaxDepth" "nat MaxDepth \<le> fuel" by simp_all
    from root_loop_returns [OF d, of L MaxMoves ?isMax "mem state" ?ms default_Move ?e1]
    obtain mv e' tr where
      "root_loop fuel L MaxMoves MaxDepth ?isMax (mem state) ?ms default_Move ?e1 = Some (mv, e', tr)"
      by (metis prod_cases3)
    from root_loop_at_returns [where mem = mem and state = state, OF assms this]
    show "findBestMove_at fuel L MaxMoves MaxDepth default_Move e mem sp state \<noteq> None"
      by (auto simp: findBestMove_at_def Let_def)
  qed
  show "\<forall>mv e' mem' acc.
          findBestMove_at fuel L MaxMoves MaxDepth default_Move e mem sp state = Some (mv, e', mem', acc) \<longrightarrow>
            mem' state = mem state \<and> (\<forall>a < sp. mem' a = mem a) \<and> private_copies sp acc \<and>
            (\<exists>tr. findBestMove fuel L MaxMoves MaxDepth default_Move e (mem state) = Some (mv, e', tr))"
  proof (intro allI impI)
    fix mv e' mem' acc
    assume f: "findBestMove_at fuel L MaxMoves MaxDepth default_Move e mem sp state = Some (mv, e', mem', acc)"
    have "(\<forall>a < sp. mem' a = mem a) \<and> private_copies sp acc \<and>
        (\<exists>tr. findBestMove fuel L MaxMoves MaxDepth default_Move e (mem state) = Some (mv, e', tr))"
    proof (cases "?ms = []")
      case True
      with f show ?thesis by (auto simp: findBestMove_at_def findBestMove_def)
    next
      case False
      with f have r: "root_loop_at fuel L MaxMoves MaxDepth ?isMax mem sp state ?ms default_Move ?e1 =
          Some (mv, e', mem', acc)"
        by (simp add: findBestMove_at_def Let_def)
      from root_loop_at_frame [OF r] root_loop_at_value [OF assms r] False
      show ?thesis by (auto simp: findBestMove_def Let_def)
    qed
    with assms show "mem' state = mem state \<and> (\<forall>a < sp. mem' a = mem a) \<and> private_copies sp acc \<and>
        (\<exists>tr. findBestMove fuel L MaxMoves MaxDepth default_Move e (mem state) = Some (mv, e', tr))"
      by blast
  qed
qed

text \<open>
  Nim on a heap of three, the caller's state at address 0 and the stack free from
  address 1: after the call address 0 still holds the heap of three, and the first writes
  are a copy into address 1, the move on it, a copy of that into address 2 and the next
  move on it.
\<close>

theorem caller_state_unchanged_witness:
  "(0::nat) < 1 \<and> (1::int) \<le> 5 \<and> nat 5 \<le> (5::nat) \<and>
   map_option (\<lambda>(mv, e, mem', acc). (mv, mem' 0, take 4 acc))
     (findBestMove_at 5 nim 64 5 0 (Minimax 0 :: 16 engine) (\<lambda>a. (3, True)) 1 0) =
     Some (1, (3, True), [Copy_into 1 0, ApplyMove_at 1 1, Copy_into 2 1, ApplyMove_at 2 1])"
proof -
  let ?call = "findBestMove_at 5 nim 64 5 0 (Minimax 0 :: 16 engine) (\<lambda>a. (3::nat, True)) 1 0"
  have s: "(0::nat) < 1" by simp
  from caller_state_unchanged [OF s, of 5 5 nim 64 0 "Minimax 0 :: 16 engine" "\<lambda>a. (3, True)"]
  obtain mv e' mem' acc where c: "?call = Some (mv, e', mem', acc)" and "mem' 0 = (3, True)"
    by (cases ?call) auto
  moreover have "map_option (\<lambda>(mv, e, mem', acc). (mv, take 4 acc)) ?call =
      Some (1, [Copy_into 1 0, ApplyMove_at 1 1, Copy_into 2 1, ApplyMove_at 2 1])"
    by code_simp
  ultimately show ?thesis by simp
qed

text \<open>
  C10. There are root states with a legal move for which \<open>findBestMove\<close> still returns
  the default-constructed move. Whenever the root has a move and every root move's search
  score is \<open>\<le> - 32000\<close> with the root maximizing (or \<open>\<ge> 32000\<close> with the root
  minimizing), no score is strictly better than the initial best score, so the placeholder
  is returned and \<open>getBestScore\<close> reads the initial sentinel.
\<close>

theorem findBestMove_placeholder_despite_moves:
  fixes e :: "'w::len engine"
  assumes "generateMoves L state MaxMoves = ms" and "ms \<noteq> []"
    and "list_all2 (\<lambda>m v. root_child_score fuel L MaxMoves MaxDepth state m = Some v) ms scores"
    and "\<forall>v\<in>set scores. if isMaximizingPlayer L state then v \<le> - 32000 else 32000 \<le> v"
  shows "\<exists>e' tr. findBestMove fuel L MaxMoves MaxDepth default_Move e state =
                    Some (default_Move, e', tr) \<and>
                  getBestScore e' = (if isMaximizingPlayer L state then - 32000 else 32000)"
proof -
  let ?isMax = "isMaximizingPlayer L state"
  let ?b = "if ?isMax then - 32000 else (32000::int)"
  have "\<forall>x\<in>set (zip ms scores). \<not> (if ?isMax then snd x > ?b else snd x < ?b)"
    using assms(4) by (cases ?isMax) (auto simp: not_less dest: set_zip_rightD)
  from select_best_keeps [OF this]
  have "select_best ?isMax (zip ms scores) default_Move ?b = (default_Move, ?b)" .
  with findBestMove_select [OF assms(1-3), of default_Move e]
  show ?thesis by (simp add: getBestScore_def)
qed

text \<open>
  Such a state exists: in the tree game the maximizing player has two moves, each to a
  leaf that scores \<open>- 32000\<close>, and the move returned is the placeholder \<open>Leaf 0\<close>.
\<close>

theorem findBestMove_placeholder_despite_moves_witness:
  "generateMoves tree_game (Node [Leaf (- 32000), Leaf (- 32000)], True) 64 =
     [Leaf (- 32000), Leaf (- 32000)] \<and>
   isMaximizingPlayer tree_game (Node [Leaf (- 32000), Leaf (- 32000)], True) \<and>
   root_child_score 5 tree_game 64 5 (Node [Leaf (- 32000), Leaf (- 32000)], True) (Leaf (- 32000)) =
     Some (- 32000) \<and>
   (\<exists>e' tr. findBestMove 5 tree_game 64 5 (Leaf 0) (Minimax 7 :: 16 engine)
              (Node [Leaf (- 32000), Leaf (- 32000)], True) = Some (Leaf 0, e', tr) \<and>
            getBestScore e' = - 32000)"
proof -
  let ?s = "(Node [Leaf (- 32000), Leaf (- 32000)], True)"
  have g: "generateMoves tree_game ?s 64 = [Leaf (- 32000), Leaf (- 32000)]"
    and ne: "[Leaf (- 32000), Leaf (- 32000)] \<noteq> []"
    and mx: "isMaximizingPlayer tree_game ?s"
    by (simp_all add: tree_game_def)
  have c: "root_child_score 5 tree_game 64 5 ?s (Leaf (- 32000)) = Some (- 32000)"
    by code_simp
  then have sc: "list_all2 (\<lambda>m v. root_child_score 5 tree_game 64 5 ?s m = Some v)
      [Leaf (- 32000), Leaf (- 32000)] [- 32000, - 32000]"
    by simp
  have le: "\<forall>v\<in>set [- 32000, - 32000 :: int]. if isMaximizingPlayer tree_game ?s then v \<le> - 32000 else 32000 \<le> v"
    using mx by simp
  from findBestMove_placeholder_despite_moves [OF g ne sc le, of "Leaf 0" "Minimax 7 :: 16 engine"] g mx c
  show ?thesis by simp
qed

end
